theory Spec2Isabelle
  imports Main
begin

section \<open>Python values used by services/comparison.py\<close>

text \<open>
  Exceptions the modelled code can raise.  Every raise of the source is a branch
  returning \<open>Inl\<close> of one of these.
\<close>

datatype error = IndexError | KeyError | AssertionError | JSONDecodeError | OSError

text \<open>
  Python list indexing \<open>xs[i]\<close>: a negative index counts from the end, and an index
  outside \<open>-len(xs) .. len(xs) - 1\<close> raises IndexError (here: \<open>None\<close>).
\<close>

definition py_index :: "'a list \<Rightarrow> int \<Rightarrow> 'a option" where
  "py_index xs i =
     (if 0 \<le> i \<and> i < int (length xs) then Some (xs ! nat i)
      else if i < 0 \<and> - int (length xs) \<le> i then Some (xs ! nat (int (length xs) + i))
      else None)"

section \<open>Report lines (the array representation read by the visitors)\<close>

text \<open>
  A coverage value as it is decoded from the report: a number (0 miss, 1 hit, ...),
  a branch fraction such as \<open>1/2\<close> kept as text, or null.
\<close>

datatype coverage_value = CovNum int | CovText string | CovNull

text \<open>
  A session entry of a report line: positions 0 (session id) and 1 (coverage) of the
  session array; the later positions are never read by this module.
\<close>

record line_session =
  session_id :: int
  session_coverage :: coverage_value

text \<open>
  The line array: position 0 is the coverage, position 2 the list of sessions.
  Positions 1, 3 and 4 are never read by this module.
\<close>

record report_line =
  line_coverage :: coverage_value
  line_sessions :: "line_session list"

text \<open>
  One cell of \<open>ReportFile._lines\<close>: falsy (\<open>None\<close>, empty), already a list, or the
  JSON text of an old-format line.
\<close>

datatype stored_line = Blank | Arr report_line | Old string

record report_file =
  rf_name :: string
  rf_lines :: "stored_line list"
  rf_eof :: int

text \<open>\<open>shared.utils.merge.LineType\<close>.\<close>

datatype LineType = skipped | miss | hit | partial

text \<open>
  The two library functions the module imports and does not define, taken as parameters:
  \<open>json.loads\<close> on the text of an old-format line (it may raise, and may decode to
  null), and \<open>shared.utils.merge.line_type\<close> (which may return \<open>None\<close>).
\<close>

record externals =
  json_loads :: "string \<Rightarrow> error + report_line option"
  line_type :: "coverage_value \<Rightarrow> LineType option"

section \<open>Line classification\<close>

text \<open>\<open>_is_added\<close> and \<open>_is_removed\<close>, read for their truth value.\<close>

definition is_added :: "string option \<Rightarrow> bool" where
  "is_added line_value =
     (case line_value of None \<Rightarrow> False | Some [] \<Rightarrow> False | Some (c # _) \<Rightarrow> c = CHR ''+'')"

definition is_removed :: "string option \<Rightarrow> bool" where
  "is_removed line_value =
     (case line_value of None \<Rightarrow> False | Some [] \<Rightarrow> False | Some (c # _) \<Rightarrow> c = CHR ''-'')"

section \<open>FileComparisonTraverseManager\<close>

text \<open>
  A diff segment.  The header is an array of four strings which the source reads with
  \<open>int(...)\<close>; positions 1 and 3 are read as \<open>int(h or 1)\<close>, so an empty or absent
  length is \<open>None\<close> here and a present one is its integer value (the text \<open>"0"\<close> is
  truthy, hence \<open>Some 0\<close> reads as 0).
\<close>

record segment =
  base_offset :: int
  base_len :: "int option"
  head_offset :: int
  head_len :: "int option"
  seg_lines :: "string list"

record traverse_manager =
  head_file_eof :: int
  base_file_eof :: int
  segments :: "segment list"
  src :: "string list"
  base_ln :: int
  head_ln :: int

definition int_or_1 :: "int option \<Rightarrow> int" where
  "int_or_1 h = (case h of None \<Rightarrow> 1 | Some n \<Rightarrow> n)"

definition traverse_manager_init ::
  "int \<Rightarrow> int \<Rightarrow> segment list \<Rightarrow> string list \<Rightarrow> error + traverse_manager" where
  "traverse_manager_init hd_eof bs_eof segs source =
     (if source \<noteq> [] \<and> \<not> (hd_eof - 1 \<le> int (length source)) then Inl AssertionError
      else Inr \<lparr>head_file_eof = hd_eof, base_file_eof = bs_eof, segments = segs, src = source,
                base_ln = (case segs of [] \<Rightarrow> 1 | s # _ \<Rightarrow> min 1 (base_offset s)),
                head_ln = (case segs of [] \<Rightarrow> 1 | s # _ \<Rightarrow> min 1 (head_offset s))\<rparr>)"

definition traverse_finished :: "traverse_manager \<Rightarrow> bool" where
  "traverse_finished m =
     (if segments m \<noteq> [] then False
      else if src m \<noteq> [] then head_ln m > int (length (src m))
      else head_ln m \<ge> head_file_eof m \<and> base_ln m \<ge> base_file_eof m)"

definition traversing_diff :: "traverse_manager \<Rightarrow> bool" where
  "traversing_diff m =
     (case segments m of
        [] \<Rightarrow> False
      | s # _ \<Rightarrow>
          (base_offset s \<le> base_ln m \<and> base_ln m < base_offset s + int_or_1 (base_len s))
          \<or> (head_offset s \<le> head_ln m \<and> head_ln m < head_offset s + int_or_1 (head_len s)))"

text \<open>
  \<open>pop_line\<close> returns the line value (\<open>None\<close> when it falls through) and the manager
  after the destructive \<open>pop(0)\<close> on the first segment's lines.
\<close>

definition pop_line :: "traverse_manager \<Rightarrow> error + (string option \<times> traverse_manager)" where
  "pop_line m =
     (if traversing_diff m then
        (case segments m of
           [] \<Rightarrow> Inl IndexError
         | s # rest \<Rightarrow>
             (case seg_lines s of
                [] \<Rightarrow> Inl IndexError
              | l # ls \<Rightarrow> Inr (Some l, m\<lparr>segments := s\<lparr>seg_lines := ls\<rparr> # rest\<rparr>)))
      else if src m \<noteq> [] then
        (case py_index (src m) (head_ln m - 1) of
           None \<Rightarrow> Inl IndexError
         | Some l \<Rightarrow> Inr (Some l, m))
      else Inr (None, m))"

text \<open>The arguments a visitor is called with.\<close>

record line_event =
  ev_base_ln :: "int option"
  ev_head_ln :: "int option"
  ev_value :: "string option"
  ev_is_diff :: bool

text \<open>
  \<open>for visitor in visitors: visitor(...)\<close>: the visitors are called in order, each
  returning its updated self; the first exception ends the loop.
\<close>

fun call_visitors ::
  "('v \<Rightarrow> line_event \<Rightarrow> error + 'v) \<Rightarrow> 'v list \<Rightarrow> line_event \<Rightarrow> error + 'v list" where
  "call_visitors call [] ev = Inr []"
| "call_visitors call (v # vs) ev =
     (case call v ev of
        Inl e \<Rightarrow> Inl e
      | Inr v' \<Rightarrow>
          (case call_visitors call vs ev of
             Inl e \<Rightarrow> Inl e
           | Inr vs' \<Rightarrow> Inr (v' # vs')))"

definition advance :: "string option \<Rightarrow> traverse_manager \<Rightarrow> traverse_manager" where
  "advance line_value m =
     (if is_added line_value then m\<lparr>head_ln := head_ln m + 1\<rparr>
      else if is_removed line_value then m\<lparr>base_ln := base_ln m + 1\<rparr>
      else m\<lparr>head_ln := head_ln m + 1, base_ln := base_ln m + 1\<rparr>)"

definition retire_segment :: "traverse_manager \<Rightarrow> traverse_manager" where
  "retire_segment m =
     (case segments m of
        [] \<Rightarrow> m
      | s # rest \<Rightarrow> if seg_lines s = [] then m\<lparr>segments := rest\<rparr> else m)"

text \<open>One iteration of the \<open>while\<close> loop of \<open>apply\<close>.\<close>

definition apply_body ::
  "('v \<Rightarrow> line_event \<Rightarrow> error + 'v) \<Rightarrow> 'v list \<Rightarrow> traverse_manager
     \<Rightarrow> error + ('v list \<times> traverse_manager)" where
  "apply_body call visitors m =
     (case pop_line m of
        Inl e \<Rightarrow> Inl e
      | Inr (line_value, m1) \<Rightarrow>
          (case call_visitors call visitors
                  \<lparr>ev_base_ln = (if is_added line_value then None else Some (base_ln m1)),
                   ev_head_ln = (if is_removed line_value then None else Some (head_ln m1)),
                   ev_value = line_value,
                   ev_is_diff = traversing_diff m1\<rparr> of
             Inl e \<Rightarrow> Inl e
           | Inr visitors' \<Rightarrow> Inr (visitors', retire_segment (advance line_value m1))))"

text \<open>
  \<open>apply\<close>: the loop may run forever (a segment that is never reached and no source), so
  it is run with fuel: \<open>None\<close> is "still running after that many iterations".
\<close>

fun apply_loop ::
  "nat \<Rightarrow> ('v \<Rightarrow> line_event \<Rightarrow> error + 'v) \<Rightarrow> 'v list \<Rightarrow> traverse_manager
     \<Rightarrow> (error + ('v list \<times> traverse_manager)) option" where
  "apply_loop fuel call visitors m =
     (if traverse_finished m then Some (Inr (visitors, m))
      else (case fuel of
              0 \<Rightarrow> None
            | Suc fuel' \<Rightarrow>
                (case apply_body call visitors m of
                   Inl e \<Rightarrow> Some (Inl e)
                 | Inr (visitors', m') \<Rightarrow> apply_loop fuel' call visitors' m')))"

declare apply_loop.simps [simp del]

text \<open>A visitor that records the events it is called with, in order.\<close>

definition observe :: "line_event list \<Rightarrow> line_event \<Rightarrow> error + line_event list" where
  "observe seen ev = Inr (seen @ [ev])"

section \<open>Visitors\<close>

text \<open>
  \<open>FileComparisonVisitor._get_line\<close>.  The only exception caught is the IndexError of
  the list access; whatever \<open>json.loads\<close> raises is passed on.
\<close>

definition get_line ::
  "externals \<Rightarrow> report_file option \<Rightarrow> int option \<Rightarrow> error + report_line option" where
  "get_line E report_file ln =
     (case (report_file, ln) of
        (None, _) \<Rightarrow> Inr None
      | (_, None) \<Rightarrow> Inr None
      | (Some f, Some n) \<Rightarrow>
          (case py_index (rf_lines f) (n - 1) of
             None \<Rightarrow> Inr None
           | Some Blank \<Rightarrow> Inr None
           | Some (Arr l) \<Rightarrow> Inr (Some l)
           | Some (Old text) \<Rightarrow> json_loads E text))"

definition get_lines ::
  "externals \<Rightarrow> report_file option \<Rightarrow> report_file option \<Rightarrow> int option \<Rightarrow> int option
     \<Rightarrow> error + (report_line option \<times> report_line option)" where
  "get_lines E base_file head_file b h =
     (case get_line E base_file b of
        Inl e \<Rightarrow> Inl e
      | Inr base_line \<Rightarrow>
          (case get_line E head_file h of
             Inl e \<Rightarrow> Inl e
           | Inr head_line \<Rightarrow> Inr (base_line, head_line)))"

record line_comparison =
  lc_base_line :: "report_line option"
  lc_head_line :: "report_line option"
  lc_head_ln :: "int option"
  lc_base_ln :: "int option"
  lc_value :: "string option"
  lc_is_diff :: bool
  lc_added :: bool
  lc_removed :: bool

definition LineComparison ::
  "report_line option \<Rightarrow> report_line option \<Rightarrow> int option \<Rightarrow> int option \<Rightarrow> string option
     \<Rightarrow> bool \<Rightarrow> line_comparison" where
  "LineComparison base_line head_line b h v d =
     \<lparr>lc_base_line = base_line, lc_head_line = head_line, lc_head_ln = h, lc_base_ln = b,
      lc_value = v, lc_is_diff = d, lc_added = is_added v, lc_removed = is_removed v\<rparr>"

text \<open>\<open>functools.reduce(lambda a, b: a + b, xs)\<close> on a non-empty list.\<close>

definition reduce_add :: "int list \<Rightarrow> int" where
  "reduce_add xs = foldl (+) (hd xs) (tl xs)"

text \<open>
  \<open>LineComparison.sessions\<close>: \<open>None\<close> is Python's \<open>None\<close> (also the implicit return
  when the comprehension is empty).
\<close>

definition sessions :: "line_comparison \<Rightarrow> int option" where
  "sessions lc =
     (case lc_head_line lc of
        None \<Rightarrow> None
      | Some head_line \<Rightarrow>
          (let ones = map (\<lambda>s. 1) (filter (\<lambda>s. session_coverage s = CovNum 1)
                                        (line_sessions head_line))
           in if ones \<noteq> [] then Some (reduce_add ones) else None))"

text \<open>
  A \<open>collections.Counter\<close>, keys in insertion order: a missing key reads as 0, and
  \<open>c[k] += d\<close> stores the key (also when the new count is 0).  It is truthy when it has
  a key.
\<close>

type_synonym counter = "(string \<times> int) list"

fun counter_get :: "counter \<Rightarrow> string \<Rightarrow> int" where
  "counter_get [] k = 0"
| "counter_get ((k', v) # c) k = (if k' = k then v else counter_get c k)"

fun counter_add :: "string \<Rightarrow> int \<Rightarrow> counter \<Rightarrow> counter" where
  "counter_add k d [] = [(k, d)]"
| "counter_add k d ((k', v) # c) =
     (if k' = k then (k', v + d) # c else (k', v) # counter_add k d c)"

fun coverage_type_map :: "LineType \<Rightarrow> string option" where
  "coverage_type_map hit = Some ''hits''"
| "coverage_type_map miss = Some ''misses''"
| "coverage_type_map partial = Some ''partials''"
| "coverage_type_map skipped = None"

text \<open>\<open>self.coverage_type_map[line_type(line[0])]\<close>, a KeyError when the type has no entry.\<close>

definition summary_key :: "externals \<Rightarrow> report_line \<Rightarrow> error + string" where
  "summary_key E line =
     (case line_type E (line_coverage line) of
        None \<Rightarrow> Inl KeyError
      | Some t \<Rightarrow> (case coverage_type_map t of None \<Rightarrow> Inl KeyError | Some k \<Rightarrow> Inr k))"

definition update_summary ::
  "externals \<Rightarrow> counter \<Rightarrow> report_line \<Rightarrow> report_line \<Rightarrow> error + counter" where
  "update_summary E summary base_line head_line =
     (case summary_key E base_line of
        Inl e \<Rightarrow> Inl e
      | Inr kb \<Rightarrow>
          (case summary_key E head_line of
             Inl e \<Rightarrow> Inl e
           | Inr kh \<Rightarrow> Inr (counter_add kh 1 (counter_add kb (- 1) summary))))"

text \<open>
  The two concrete visitors, each with the fields its constructor sets: the base file,
  the head file and the result (\<open>self.lines\<close>, \<open>self.summary\<close>).
\<close>

datatype visitor =
    CreateLineComparisonVisitor "report_file option" "report_file option" "line_comparison list"
  | CreateChangeSummaryVisitor "report_file option" "report_file option" counter

text \<open>\<open>__call__\<close> of each visitor.\<close>

fun visitor_call :: "externals \<Rightarrow> visitor \<Rightarrow> line_event \<Rightarrow> error + visitor" where
  "visitor_call E (CreateLineComparisonVisitor base_file head_file lines) ev =
     (if ev_value ev = None then Inr (CreateLineComparisonVisitor base_file head_file lines)
      else (case get_lines E base_file head_file (ev_base_ln ev) (ev_head_ln ev) of
              Inl e \<Rightarrow> Inl e
            | Inr (base_line, head_line) \<Rightarrow>
                Inr (CreateLineComparisonVisitor base_file head_file
                       (lines @ [LineComparison base_line head_line (ev_base_ln ev)
                                   (ev_head_ln ev) (ev_value ev) (ev_is_diff ev)]))))"
| "visitor_call E (CreateChangeSummaryVisitor base_file head_file summary) ev =
     (if is_added (ev_value ev) \<or> is_removed (ev_value ev)
      then Inr (CreateChangeSummaryVisitor base_file head_file summary)
      else (case get_lines E base_file head_file (ev_base_ln ev) (ev_head_ln ev) of
              Inl e \<Rightarrow> Inl e
            | Inr (None, _) \<Rightarrow> Inr (CreateChangeSummaryVisitor base_file head_file summary)
            | Inr (Some base_line, None) \<Rightarrow>
                Inr (CreateChangeSummaryVisitor base_file head_file summary)
            | Inr (Some base_line, Some head_line) \<Rightarrow>
                (if line_type E (line_coverage base_line) = line_type E (line_coverage head_line)
                 then Inr (CreateChangeSummaryVisitor base_file head_file summary)
                 else (case update_summary E summary base_line head_line of
                         Inl e \<Rightarrow> Inl e
                       | Inr summary' \<Rightarrow>
                           Inr (CreateChangeSummaryVisitor base_file head_file summary')))))"

section \<open>FileComparison\<close>

definition MAX_DIFF_SIZE :: int where
  "MAX_DIFF_SIZE = 170"

text \<open>
  The per-file entry of the provider's diff: its segments and the previous name of the
  file (\<open>before\<close>, absent when the file was not renamed).  The entries \<open>stats\<close>,
  \<open>totals\<close> and \<open>type\<close> are not read by the functions modelled here.  The source tests
  this dictionary for truth; it always has the key \<open>segments\<close> (the constructor reads
  it), so it is truthy exactly when it is not \<open>None\<close>.
\<close>

record diff_data =
  dd_segments :: "segment list"
  dd_before :: "string option"

text \<open>
  The fields set by \<open>FileComparison.__init__\<close>, and the slot in which
  \<open>cached_property\<close> keeps the value of \<open>_calculated_changes_and_lines\<close>.
\<close>

record file_comparison =
  fc_base_file :: "report_file option"
  fc_head_file :: "report_file option"
  fc_diff_data :: "diff_data option"
  fc_src :: "string list"
  fc_total_diff_length :: int
  fc_bypass_max_diff :: bool
  fc_should_search_for_changes :: "bool option"
  fc_calculated :: "(counter \<times> line_comparison list) option"

definition FileComparison ::
  "report_file option \<Rightarrow> report_file option \<Rightarrow> diff_data option \<Rightarrow> string list \<Rightarrow> bool
     \<Rightarrow> bool option \<Rightarrow> file_comparison" where
  "FileComparison base_file head_file dd source bypass should_search =
     \<lparr>fc_base_file = base_file, fc_head_file = head_file, fc_diff_data = dd, fc_src = source,
      fc_total_diff_length =
        (case dd of
           None \<Rightarrow> 0
         | Some d \<Rightarrow>
             if dd_segments d \<noteq> []
             then reduce_add (map (\<lambda>s. int (length (seg_lines s))) (dd_segments d))
             else 0),
      fc_bypass_max_diff = bypass,
      fc_should_search_for_changes = should_search,
      fc_calculated = None\<rparr>"

definition has_diff :: "file_comparison \<Rightarrow> bool" where
  "has_diff fc = (fc_diff_data fc \<noteq> None)"

text \<open>The condition under which \<open>_calculated_changes_and_lines\<close> applies the visitors.\<close>

definition pass_runs :: "file_comparison \<Rightarrow> bool" where
  "pass_runs fc = (fc_diff_data fc \<noteq> None \<or> fc_should_search_for_changes fc \<noteq> Some False)"

text \<open>\<open>change_summary_visitor.summary, create_lines_visitor.lines\<close> of the visitor list.\<close>

fun visitor_results :: "visitor list \<Rightarrow> counter \<times> line_comparison list" where
  "visitor_results [CreateChangeSummaryVisitor _ _ summary, CreateLineComparisonVisitor _ _ lines] =
     (summary, lines)"
| "visitor_results _ = ([], [])"

text \<open>
  The body of \<open>_calculated_changes_and_lines\<close>.  The manager is given the very list
  \<open>diff_data["segments"]\<close>, which \<open>apply\<close> consumes; the third component of the result
  is that list after the pass.
\<close>

definition calculate ::
  "nat \<Rightarrow> externals \<Rightarrow> file_comparison
     \<Rightarrow> (error + ((counter \<times> line_comparison list) \<times> segment list)) option" where
  "calculate fuel E fc =
     (let segs = (case fc_diff_data fc of None \<Rightarrow> [] | Some d \<Rightarrow> dd_segments d);
          visitors = [CreateChangeSummaryVisitor (fc_base_file fc) (fc_head_file fc) [],
                      CreateLineComparisonVisitor (fc_base_file fc) (fc_head_file fc) []]
      in if pass_runs fc then
           (case traverse_manager_init
                   (case fc_head_file fc of None \<Rightarrow> 0 | Some f \<Rightarrow> rf_eof f)
                   (case fc_base_file fc of None \<Rightarrow> 0 | Some f \<Rightarrow> rf_eof f)
                   segs (fc_src fc) of
              Inl e \<Rightarrow> Some (Inl e)
            | Inr m \<Rightarrow>
                (case apply_loop fuel (visitor_call E) visitors m of
                   None \<Rightarrow> None
                 | Some (Inl e) \<Rightarrow> Some (Inl e)
                 | Some (Inr (visitors', m')) \<Rightarrow>
                     Some (Inr (visitor_results visitors', segments m'))))
         else Some (Inr (visitor_results visitors, segs)))"

text \<open>
  \<open>_calculated_changes_and_lines\<close> as a \<open>cached_property\<close>: a stored value is returned
  as it is; otherwise the body runs and, when it returns, its value is stored.  The
  object after the access is returned with the value.
\<close>

definition calculated_changes_and_lines ::
  "nat \<Rightarrow> externals \<Rightarrow> file_comparison
     \<Rightarrow> (error + ((counter \<times> line_comparison list) \<times> file_comparison)) option" where
  "calculated_changes_and_lines fuel E fc =
     (case fc_calculated fc of
        Some r \<Rightarrow> Some (Inr (r, fc))
      | None \<Rightarrow>
          (case calculate fuel E fc of
             None \<Rightarrow> None
           | Some (Inl e) \<Rightarrow> Some (Inl e)
           | Some (Inr (r, segs')) \<Rightarrow>
               Some (Inr (r, fc\<lparr>fc_diff_data :=
                                   map_option (\<lambda>d. d\<lparr>dd_segments := segs'\<rparr>) (fc_diff_data fc),
                                 fc_calculated := Some r\<rparr>))))"

definition change_summary ::
  "nat \<Rightarrow> externals \<Rightarrow> file_comparison \<Rightarrow> (error + (counter \<times> file_comparison)) option" where
  "change_summary fuel E fc =
     (case calculated_changes_and_lines fuel E fc of
        None \<Rightarrow> None
      | Some (Inl e) \<Rightarrow> Some (Inl e)
      | Some (Inr (r, fc')) \<Rightarrow> Some (Inr (fst r, fc')))"

text \<open>\<open>FileComparison.lines\<close>; the inner \<open>None\<close> is the \<open>None\<close> it returns when truncating.\<close>

definition lines ::
  "nat \<Rightarrow> externals \<Rightarrow> file_comparison
     \<Rightarrow> (error + (line_comparison list option \<times> file_comparison)) option" where
  "lines fuel E fc =
     (if fc_total_diff_length fc > MAX_DIFF_SIZE \<and> \<not> fc_bypass_max_diff fc
      then Some (Inr (None, fc))
      else (case calculated_changes_and_lines fuel E fc of
              None \<Rightarrow> None
            | Some (Inl e) \<Rightarrow> Some (Inl e)
            | Some (Inr (r, fc')) \<Rightarrow> Some (Inr (Some (snd r), fc'))))"

section \<open>Comparison and the cache of files with changes\<close>

text \<open>
  The redis connection: the server may be unreachable (every call raises OSError), and
  otherwise holds a value per key (a list of keys with their values, each key once).  The stored value is the JSON document written by
  \<open>json.dumps\<close>, kept as the document itself (null or a list of strings) rather than
  as its text; expiry (\<open>ex=86400\<close>) is not modelled.
\<close>

datatype json_doc = JNull | JStrings "string list"

record redis =
  redis_up :: bool
  redis_store :: "(string \<times> json_doc) list"

fun store_put :: "string \<Rightarrow> json_doc \<Rightarrow> (string \<times> json_doc) list \<Rightarrow> (string \<times> json_doc) list" where
  "store_put k v [] = [(k, v)]"
| "store_put k v ((k', v') # kvs) =
     (if k' = k then (k, v) # kvs else (k', v') # store_put k v kvs)"

definition redis_get :: "redis \<Rightarrow> string \<Rightarrow> error + json_doc option" where
  "redis_get r k = (if redis_up r then Inr (map_of (redis_store r) k) else Inl OSError)"

definition redis_set :: "redis \<Rightarrow> string \<Rightarrow> json_doc \<Rightarrow> error + redis" where
  "redis_set r k v =
     (if redis_up r then Inr (r\<lparr>redis_store := store_put k v (redis_store r)\<rparr>) else Inl OSError)"

definition json_dumps :: "string list option \<Rightarrow> json_doc" where
  "json_dumps v = (case v of None \<Rightarrow> JNull | Some names \<Rightarrow> JStrings names)"

definition json_loads_names :: "json_doc \<Rightarrow> string list option" where
  "json_loads_names d = (case d of JNull \<Rightarrow> None | JStrings names \<Rightarrow> Some names)"

text \<open>Decimal text of an integer, as an f-string prints it.\<close>

fun str_nat :: "nat \<Rightarrow> string" where
  "str_nat n =
     (if n < 10 then [char_of (48 + n)] else str_nat (n div 10) @ [char_of (48 + n mod 10)])"

declare str_nat.simps [simp del]

definition str_int :: "int \<Rightarrow> string" where
  "str_int i = (if i < 0 then CHR ''-'' # str_nat (nat (- i)) else str_nat (nat i))"

fun join :: "string \<Rightarrow> string list \<Rightarrow> string" where
  "join sep [] = []"
| "join sep [x] = x"
| "join sep (x # y # ys) = x @ sep @ join sep (y # ys)"

text \<open>
  A report as this module reads it: \<open>report.files\<close> is the list of file names and
  \<open>report.get(name)\<close> the file of that name, if any.
\<close>

type_synonym report = "(string \<times> report_file) list"

definition report_files :: "report \<Rightarrow> string list" where
  "report_files rep = map fst rep"

definition report_get :: "report \<Rightarrow> string option \<Rightarrow> report_file option" where
  "report_get rep name = (case name of None \<Rightarrow> None | Some n \<Rightarrow> map_of rep n)"

text \<open>
  A Comparison with its lazily fetched parts already resolved: the reports of the two
  commits and the per-file entries of the provider's diff.  The first three fields are
  \<open>base_commit.repository.author.service\<close>, \<open>...author.username\<close> and
  \<open>...repository.name\<close>.
\<close>

record comparison =
  cmp_service :: string
  cmp_username :: string
  cmp_repo_name :: string
  cmp_pullid :: "int option"
  cmp_files_with_changes :: "string list option"
  cmp_head_report :: report
  cmp_base_report :: "report option"
  cmp_diff_files :: "(string \<times> diff_data) list"

definition cache_key :: "string \<Rightarrow> string \<Rightarrow> string \<Rightarrow> int \<Rightarrow> string" where
  "cache_key service username repo_name pull =
     join ''/'' [''compare-changed-files'', service, username, repo_name, str_int pull]"

definition retrieve_files_with_changes_from_cache ::
  "redis \<Rightarrow> string \<Rightarrow> string \<Rightarrow> string \<Rightarrow> int option \<Rightarrow> string list option" where
  "retrieve_files_with_changes_from_cache r service username repo_name pullid =
     (case pullid of
        None \<Rightarrow> None
      | Some pull \<Rightarrow>
          (case redis_get r (cache_key service username repo_name pull) of
             Inl e \<Rightarrow> None
           | Inr None \<Rightarrow> json_loads_names (json_dumps None)
           | Inr (Some d) \<Rightarrow> json_loads_names d))"

definition Comparison ::
  "redis \<Rightarrow> string \<Rightarrow> string \<Rightarrow> string \<Rightarrow> int option \<Rightarrow> report \<Rightarrow> report option
     \<Rightarrow> (string \<times> diff_data) list \<Rightarrow> comparison" where
  "Comparison r service username repo_name pullid head_report base_report diff_files =
     \<lparr>cmp_service = service, cmp_username = username, cmp_repo_name = repo_name,
      cmp_pullid = pullid,
      cmp_files_with_changes =
        retrieve_files_with_changes_from_cache r service username repo_name pullid,
      cmp_head_report = head_report, cmp_base_report = base_report,
      cmp_diff_files = diff_files\<rparr>"

definition set_files_with_changes_in_cache_if_not_already_set ::
  "comparison \<Rightarrow> redis \<Rightarrow> string list \<Rightarrow> error + redis" where
  "set_files_with_changes_in_cache_if_not_already_set c r files_with_changes =
     (case (cmp_files_with_changes c, cmp_pullid c) of
        (None, Some pull) \<Rightarrow>
          redis_set r (cache_key (cmp_service c) (cmp_username c) (cmp_repo_name c) pull)
            (json_dumps (Some files_with_changes))
      | _ \<Rightarrow> Inr r)"

text \<open>
  \<open>get_file_comparison\<close>.  The source of the file is fetched from the provider when
  \<open>with_src\<close> is set; here the caller passes the fetched lines (\<open>None\<close> for
  \<open>with_src=False\<close>).  The \<open>diff_data\<close> given to the FileComparison is the entry of
  the comparison's own dictionary, not a copy: see \<open>share_diff_entry\<close> below.
\<close>

definition get_file_comparison ::
  "comparison \<Rightarrow> string \<Rightarrow> string list option \<Rightarrow> bool \<Rightarrow> file_comparison" where
  "get_file_comparison c file_name with_src bypass =
     (let head_file = report_get (cmp_head_report c) (Some file_name);
          dd = map_of (cmp_diff_files c) file_name;
          base_file =
            (case cmp_base_report c of
               None \<Rightarrow> None
             | Some base \<Rightarrow>
                 (case (report_get base (Some file_name), dd) of
                    (None, Some d) \<Rightarrow> report_get base (dd_before d)
                  | (found, _) \<Rightarrow> found))
      in FileComparison base_file head_file dd
           (case with_src of None \<Rightarrow> [] | Some source \<Rightarrow> source) bypass
           (case cmp_files_with_changes c of
              None \<Rightarrow> None
            | Some names \<Rightarrow> Some (file_name \<in> set names)))"

text \<open>
  The comparison after a pass over the FileComparison \<open>fc\<close> of the file \<open>file_name\<close>.
  The FileComparison holds the dictionary entry of the comparison itself, and the pass
  pops the lines and the segments of that entry in place; so the entry of the
  comparison is the one the FileComparison has after the pass.
\<close>

definition share_diff_entry :: "comparison \<Rightarrow> string \<Rightarrow> file_comparison \<Rightarrow> comparison" where
  "share_diff_entry c file_name fc =
     (case fc_diff_data fc of
        None \<Rightarrow> c
      | Some d \<Rightarrow>
          c\<lparr>cmp_diff_files :=
               map (\<lambda>(name, d0). if name = file_name then (name, d) else (name, d0))
                 (cmp_diff_files c)\<rparr>)"

text \<open>
  The generator behind \<open>Comparison.files\<close>: the file names still to visit, the
  accumulated \<open>files_with_changes\<close>, and whether it has returned.
\<close>

record files_generator =
  gen_pending :: "string list"
  gen_files_with_changes :: "string list"
  gen_returned :: bool

definition files :: "comparison \<Rightarrow> files_generator" where
  "files c = \<lparr>gen_pending = report_files (cmp_head_report c), gen_files_with_changes = [],
              gen_returned = False\<rparr>"

text \<open>
  One \<open>next()\<close> on the generator: it yields a FileComparison (\<open>Some\<close>), or runs off the
  end of the loop, writes the cache and stops (\<open>None\<close>, StopIteration).  With the
  value come the comparison (whose diff entry the pass has consumed), the generator and
  the cache afterwards.
\<close>

definition files_next ::
  "nat \<Rightarrow> externals \<Rightarrow> comparison \<Rightarrow> files_generator \<Rightarrow> redis
     \<Rightarrow> (error + (file_comparison option \<times> comparison \<times> files_generator \<times> redis)) option" where
  "files_next fuel E c g r =
     (if gen_returned g then Some (Inr (None, c, g, r))
      else (case gen_pending g of
              [] \<Rightarrow>
                (case set_files_with_changes_in_cache_if_not_already_set c r
                        (gen_files_with_changes g) of
                   Inl e \<Rightarrow> Some (Inl e)
                 | Inr r' \<Rightarrow> Some (Inr (None, c, g\<lparr>gen_returned := True\<rparr>, r')))
            | file_name # rest \<Rightarrow>
                (case change_summary fuel E (get_file_comparison c file_name None False) of
                   None \<Rightarrow> None
                 | Some (Inl e) \<Rightarrow> Some (Inl e)
                 | Some (Inr (summary, fc')) \<Rightarrow>
                     Some (Inr (Some fc',
                                share_diff_entry c file_name fc',
                                g\<lparr>gen_pending := rest,
                                  gen_files_with_changes :=
                                    (if summary \<noteq> [] then gen_files_with_changes g @ [file_name]
                                     else gen_files_with_changes g)\<rparr>,
                                r)))))"

text \<open>
  Iterating over the generator: up to \<open>n\<close> calls of \<open>next()\<close>, stopping at
  StopIteration.  The result is the files yielded, and the comparison, the generator
  and the cache afterwards; the generator is exhausted when \<open>gen_returned\<close> holds of
  it.
\<close>

fun files_consume ::
  "nat \<Rightarrow> nat \<Rightarrow> externals \<Rightarrow> comparison \<Rightarrow> files_generator \<Rightarrow> redis
     \<Rightarrow> (error + (file_comparison list \<times> comparison \<times> files_generator \<times> redis)) option" where
  "files_consume 0 fuel E c g r = Some (Inr ([], c, g, r))"
| "files_consume (Suc n) fuel E c g r =
     (case files_next fuel E c g r of
        None \<Rightarrow> None
      | Some (Inl e) \<Rightarrow> Some (Inl e)
      | Some (Inr (None, c', g', r')) \<Rightarrow> Some (Inr ([], c', g', r'))
      | Some (Inr (Some fc, c', g', r')) \<Rightarrow>
          (case files_consume n fuel E c' g' r' of
             None \<Rightarrow> None
           | Some (Inl e) \<Rightarrow> Some (Inl e)
           | Some (Inr (fcs, c'', g'', r'')) \<Rightarrow> Some (Inr (fc # fcs, c'', g'', r''))))"

section \<open>Notions used in the statements, and example inputs\<close>

text \<open>The event of a line outside any segment when no source is given.\<close>

definition plain_event :: "int \<Rightarrow> line_event" where
  "plain_event i = \<lparr>ev_base_ln = Some i, ev_head_ln = Some i, ev_value = None, ev_is_diff = False\<rparr>"

definition example_removed_manager :: traverse_manager where
  "example_removed_manager =
     \<lparr>head_file_eof = 2, base_file_eof = 2,
      segments = [\<lparr>base_offset = 1, base_len = Some 1, head_offset = 1, head_len = Some 1,
                   seg_lines = [''-a'', ''+b'']\<rparr>],
      src = [], base_ln = 1, head_ln = 1\<rparr>"

definition example_hit_line :: report_line where
  "example_hit_line = \<lparr>line_coverage = CovNum 1,
     line_sessions = [\<lparr>session_id = 0, session_coverage = CovNum 1\<rparr>]\<rparr>"

definition example_miss_line :: report_line where
  "example_miss_line = \<lparr>line_coverage = CovNum 0,
     line_sessions = [\<lparr>session_id = 0, session_coverage = CovNum 0\<rparr>]\<rparr>"



text \<open>The sum of the three counts of a change summary.\<close>

definition summary_total :: "counter \<Rightarrow> int" where
  "summary_total c = counter_get c ''hits'' + counter_get c ''misses'' + counter_get c ''partials''"

text \<open>The invariant of the visitors: the summary of a change-summary visitor sums to 0.\<close>

fun zero_sum_visitor :: "visitor \<Rightarrow> bool" where
  "zero_sum_visitor (CreateChangeSummaryVisitor _ _ summary) = (summary_total summary = 0)"
| "zero_sum_visitor (CreateLineComparisonVisitor _ _ _) = True"

text \<open>
  A choice of the two library functions: no old-format line decodes, and coverage 0 is
  a miss, -1 skipped, any other number a hit, a fraction a partial.
\<close>

definition example_externals :: externals where
  "example_externals =
     \<lparr>json_loads = (\<lambda>text. Inl JSONDecodeError),
      line_type = (\<lambda>c. case c of
                          CovNum n \<Rightarrow> if n = 0 then Some miss
                                      else if n = - 1 then Some skipped else Some hit
                        | CovText _ \<Rightarrow> Some partial
                        | CovNull \<Rightarrow> None)\<rparr>"

text \<open>A file of one unchanged line that is missed in the base report and hit in the head report.\<close>

definition example_changed_file :: file_comparison where
  "example_changed_file =
     FileComparison
       (Some \<lparr>rf_name = ''a.py'', rf_lines = [Arr example_miss_line], rf_eof = 2\<rparr>)
       (Some \<lparr>rf_name = ''a.py'', rf_lines = [Arr example_hit_line], rf_eof = 2\<rparr>)
       None [] False None"

text \<open>The number of raw lines in all segments of a file's diff entry.\<close>

definition raw_line_count :: "diff_data option \<Rightarrow> nat" where
  "raw_line_count dd =
     (case dd of None \<Rightarrow> 0 | Some d \<Rightarrow> sum_list (map (\<lambda>s. length (seg_lines s)) (dd_segments d)))"

text \<open>A diff entry with one segment of 171 added lines.\<close>

definition example_large_diff :: diff_data where
  "example_large_diff =
     \<lparr>dd_segments = [\<lparr>base_offset = 0, base_len = Some 0, head_offset = 1, head_len = Some 171,
                      seg_lines = replicate 171 ''+x''\<rparr>],
      dd_before = None\<rparr>"

text \<open>The file of the previous example, with the hint that it has no changes.\<close>

definition example_known_unchanged_file :: file_comparison where
  "example_known_unchanged_file =
     FileComparison
       (Some \<lparr>rf_name = ''a.py'', rf_lines = [Arr example_miss_line], rf_eof = 2\<rparr>)
       (Some \<lparr>rf_name = ''a.py'', rf_lines = [Arr example_hit_line], rf_eof = 2\<rparr>)
       None [] False (Some False)"

text \<open>A reachable cache with no entry, and the same after the list of two names was written.\<close>

definition example_empty_redis :: redis where
  "example_empty_redis = \<lparr>redis_up = True, redis_store = []\<rparr>"

definition example_written_redis :: redis where
  "example_written_redis =
     \<lparr>redis_up = True,
      redis_store = [(''compare-changed-files/github/codecov/api/7'',
                      JStrings [''a.py'', ''b.py''])]\<rparr>"

text \<open>
  A comparison for pull request 7 built against a given cache: one file, whose only line
  is missed in the base report and hit in the head report, and no diff.
\<close>

definition example_comparison :: "redis \<Rightarrow> comparison" where
  "example_comparison r =
     Comparison r ''github'' ''codecov'' ''api'' (Some 7)
       [(''a.py'', \<lparr>rf_name = ''a.py'', rf_lines = [Arr example_hit_line], rf_eof = 2\<rparr>)]
       (Some [(''a.py'', \<lparr>rf_name = ''a.py'', rf_lines = [Arr example_miss_line], rf_eof = 2\<rparr>)])
       []"

text \<open>
  The cache after \<open>_set_files_with_changes_in_cache_if_not_already_set\<close> has returned:
  written when the probe at construction gave no value and there is a pull id, and
  untouched otherwise.
\<close>

definition cache_after_exhaustion :: "comparison \<Rightarrow> redis \<Rightarrow> string list \<Rightarrow> redis" where
  "cache_after_exhaustion c r names =
     (case (cmp_files_with_changes c, cmp_pullid c) of
        (None, Some pull) \<Rightarrow>
          r\<lparr>redis_store :=
               store_put (cache_key (cmp_service c) (cmp_username c) (cmp_repo_name c) pull)
                 (JStrings names) (redis_store r)\<rparr>
      | _ \<Rightarrow> r)"

text \<open>
  What \<open>change_summary\<close> gives for the FileComparison that the comparison builds for
  a file (as \<open>files\<close> builds it: no source, no bypass): whether it returns, and the
  summary with the FileComparison afterwards when it does.
\<close>

definition pass_returns :: "nat \<Rightarrow> externals \<Rightarrow> comparison \<Rightarrow> string \<Rightarrow> bool" where
  "pass_returns fuel E c file_name =
     (case change_summary fuel E (get_file_comparison c file_name None False) of
        Some (Inr _) \<Rightarrow> True
      | _ \<Rightarrow> False)"

definition pass_result ::
  "nat \<Rightarrow> externals \<Rightarrow> comparison \<Rightarrow> string \<Rightarrow> counter \<times> file_comparison" where
  "pass_result fuel E c file_name =
     (case change_summary fuel E (get_file_comparison c file_name None False) of
        Some (Inr result) \<Rightarrow> result
      | _ \<Rightarrow> ([], get_file_comparison c file_name None False))"

text \<open>Among the given file names, those whose change summary is non-empty.\<close>

definition changed_names :: "nat \<Rightarrow> externals \<Rightarrow> comparison \<Rightarrow> string list \<Rightarrow> string list" where
  "changed_names fuel E c names = filter (\<lambda>f. fst (pass_result fuel E c f) \<noteq> []) names"

text \<open>
  Two comparisons that build the same FileComparison for each of the given files and
  have the same cached list, pull id and repository.
\<close>

definition agrees :: "comparison \<Rightarrow> comparison \<Rightarrow> string list \<Rightarrow> bool" where
  "agrees c c1 names =
     (list_all (\<lambda>f. get_file_comparison c1 f None False = get_file_comparison c f None False)
        names \<and>
      cmp_files_with_changes c1 = cmp_files_with_changes c \<and> cmp_pullid c1 = cmp_pullid c \<and>
      cmp_service c1 = cmp_service c \<and> cmp_username c1 = cmp_username c \<and>
      cmp_repo_name c1 = cmp_repo_name c)"

text \<open>
  What it means for the segments of a file to be consistent with the two line pointers.
  The effective header lengths, and the number of base lines (lines not added) and of
  head lines (lines not removed) among raw lines.
\<close>

definition blen :: "segment \<Rightarrow> int" where
  "blen s = int_or_1 (base_len s)"

definition hlen :: "segment \<Rightarrow> int" where
  "hlen s = int_or_1 (head_len s)"

definition base_lines_in :: "string list \<Rightarrow> int" where
  "base_lines_in ls = int (length (filter (\<lambda>l. \<not> is_added (Some l)) ls))"

definition head_lines_in :: "string list \<Rightarrow> int" where
  "head_lines_in ls = int (length (filter (\<lambda>l. \<not> is_removed (Some l)) ls))"

text \<open>
  The number of lines between the pointers and the place where the segment is entered
  (0 once inside it): counted on the base side, or on the head side for a segment with
  no base lines.
\<close>

definition gap :: "int \<Rightarrow> int \<Rightarrow> segment \<Rightarrow> int" where
  "gap b h s =
     (if blen s \<noteq> 0 then base_offset s + blen s - base_lines_in (seg_lines s) - b
      else head_offset s + hlen s - head_lines_in (seg_lines s) - h)"

text \<open>
  The first segment lies at or after the pointers: it has lines left, no more of them on
  either side than its header says, all of them as long as it has not been entered, and
  both pointers reach it together.
\<close>

definition seg_ok :: "int \<Rightarrow> int \<Rightarrow> segment \<Rightarrow> bool" where
  "seg_ok b h s =
     (seg_lines s \<noteq> [] \<and>
      base_lines_in (seg_lines s) \<le> blen s \<and> head_lines_in (seg_lines s) \<le> hlen s \<and>
      0 \<le> gap b h s \<and>
      (0 < gap b h s \<longrightarrow>
         base_lines_in (seg_lines s) = blen s \<and> head_lines_in (seg_lines s) = hlen s) \<and>
      (blen s \<noteq> 0 \<and> hlen s \<noteq> 0 \<longrightarrow>
         h + gap b h s = head_offset s + hlen s - head_lines_in (seg_lines s)))"

text \<open>
  The segments are ascending and do not overlap: each is consistent with the pointers
  as they stand after the one before.
\<close>

fun aligned :: "int \<Rightarrow> int \<Rightarrow> segment list \<Rightarrow> bool" where
  "aligned b h [] = True"
| "aligned b h (s # rest) =
     (seg_ok b h s \<and>
      aligned (b + gap b h s + base_lines_in (seg_lines s))
              (h + gap b h s + head_lines_in (seg_lines s)) rest)"

text \<open>The pointers after the last segment.\<close>

fun segments_end :: "int \<Rightarrow> int \<Rightarrow> segment list \<Rightarrow> int \<times> int" where
  "segments_end b h [] = (b, h)"
| "segments_end b h (s # rest) =
     segments_end (b + gap b h s + base_lines_in (seg_lines s))
                  (h + gap b h s + head_lines_in (seg_lines s)) rest"

definition total_lines :: "segment list \<Rightarrow> nat" where
  "total_lines segs = sum_list (map (\<lambda>s. length (seg_lines s)) segs)"

text \<open>
  A segment as the provider sends it: its lines account for exactly the lengths of its
  header, its offsets are not negative, and an offset of 0 comes with a length of 0.
\<close>

definition segment_consistent :: "segment \<Rightarrow> bool" where
  "segment_consistent s =
     (seg_lines s \<noteq> [] \<and>
      base_lines_in (seg_lines s) = blen s \<and> head_lines_in (seg_lines s) = hlen s \<and>
      0 \<le> base_offset s \<and> 0 \<le> head_offset s \<and>
      (base_offset s = 0 \<longrightarrow> blen s = 0) \<and> (head_offset s = 0 \<longrightarrow> hlen s = 0))"

text \<open>
  The inputs of a manager that are well formed: consistent segments, ascending and not
  overlapping from the initial pointers; the segments end inside the files (inside the
  source, when it is given, which then is the full source); an offset of 0 in the
  first segment says that the file is empty on that side; and no line of the source
  looks like an added or removed line.
\<close>

definition well_formed_input :: "int \<Rightarrow> int \<Rightarrow> segment list \<Rightarrow> string list \<Rightarrow> bool" where
  "well_formed_input hd_eof bs_eof segs source =
     (let b0 = (case segs of [] \<Rightarrow> 1 | s # _ \<Rightarrow> min 1 (base_offset s));
          h0 = (case segs of [] \<Rightarrow> 1 | s # _ \<Rightarrow> min 1 (head_offset s))
      in list_all segment_consistent segs \<and>
         aligned b0 h0 segs \<and>
         (source = [] \<longrightarrow> fst (segments_end b0 h0 segs) \<le> bs_eof \<and>
                             snd (segments_end b0 h0 segs) \<le> hd_eof) \<and>
         (source \<noteq> [] \<longrightarrow> snd (segments_end b0 h0 segs) \<le> int (length source) + 1 \<and>
                              hd_eof - 1 \<le> int (length source)) \<and>
         (case segs of
            [] \<Rightarrow> True
          | s # _ \<Rightarrow> (head_offset s = 0 \<longrightarrow> source = [] \<and> hd_eof \<le> 1) \<and>
                     (base_offset s = 0 \<longrightarrow> bs_eof \<le> 1)) \<and>
         list_all (\<lambda>l. \<not> is_added (Some l) \<and> \<not> is_removed (Some l)) source)"

text \<open>The same for a manager in the middle of its pass, and the iterations it has left.\<close>

definition traverse_inv :: "traverse_manager \<Rightarrow> bool" where
  "traverse_inv m =
     (aligned (base_ln m) (head_ln m) (segments m) \<and>
      (segments m \<noteq> [] \<longrightarrow>
         (src m = [] \<longrightarrow>
            fst (segments_end (base_ln m) (head_ln m) (segments m)) \<le> base_file_eof m \<and>
            snd (segments_end (base_ln m) (head_ln m) (segments m)) \<le> head_file_eof m) \<and>
         (src m \<noteq> [] \<longrightarrow>
            snd (segments_end (base_ln m) (head_ln m) (segments m)) \<le> int (length (src m)) + 1)) \<and>
      (src m \<noteq> [] \<longrightarrow> 1 \<le> head_ln m) \<and>
      list_all (\<lambda>l. \<not> is_added (Some l) \<and> \<not> is_removed (Some l)) (src m))"

definition iterations_left :: "traverse_manager \<Rightarrow> nat" where
  "iterations_left m =
     total_lines (segments m) +
     (if src m \<noteq> [] then nat (int (length (src m)) + 1 - head_ln m)
      else nat (max (head_file_eof m - head_ln m) (base_file_eof m - base_ln m)))"

text \<open>By how much a raw line moves the base pointer and the head pointer.\<close>

definition db :: "string \<Rightarrow> int" where
  "db l = (if is_added (Some l) then 0 else 1)"

definition dh :: "string \<Rightarrow> int" where
  "dh l = (if is_removed (Some l) then 0 else 1)"

text \<open>
  The bound on the iterations: every raw line of the segments, and every line of the
  source, or of the longer file when no source is given.
\<close>

definition iteration_budget :: "int \<Rightarrow> int \<Rightarrow> segment list \<Rightarrow> string list \<Rightarrow> nat" where
  "iteration_budget hd_eof bs_eof segs source =
     total_lines segs +
     (if source \<noteq> [] then length source else nat (max hd_eof bs_eof - 1))"

text \<open>
  A file of four lines in both references whose third line was changed: one segment
  with a line of context, and the source at the head reference.
\<close>

definition example_segments :: "segment list" where
  "example_segments =
     [\<lparr>base_offset = 2, base_len = Some 2, head_offset = 2, head_len = Some 2,
       seg_lines = ['' b'', ''-c'', ''+C'']\<rparr>]"

definition example_source :: "string list" where
  "example_source = [''a'', ''b'', ''C'', ''d'']"

section \<open>Basic facts about the loop\<close>

lemma is_added_iff: "is_added v \<longleftrightarrow> (\<exists>rest. v = Some (CHR ''+'' # rest))"
  by (auto simp: is_added_def split: option.splits list.splits)

lemma is_removed_iff: "is_removed v \<longleftrightarrow> (\<exists>rest. v = Some (CHR ''-'' # rest))"
  by (auto simp: is_removed_def split: option.splits list.splits)

lemma pop_line_pointers:
  "pop_line m = Inr (v, m1) \<Longrightarrow> base_ln m1 = base_ln m \<and> head_ln m1 = head_ln m"
  by (auto simp: pop_line_def split: if_splits list.splits option.splits)

lemma retire_segment_pointers:
  "base_ln (retire_segment m) = base_ln m \<and> head_ln (retire_segment m) = head_ln m"
  by (simp add: retire_segment_def split: list.splits)

lemma apply_loop_finished:
  "traverse_finished m \<Longrightarrow> apply_loop fuel call visitors m = Some (Inr (visitors, m))"
  by (simp add: apply_loop.simps [of fuel])

lemma apply_loop_Suc:
  "\<not> traverse_finished m \<Longrightarrow>
   apply_loop (Suc fuel) call visitors m =
     (case apply_body call visitors m of
        Inl e \<Rightarrow> Some (Inl e)
      | Inr (visitors', m') \<Rightarrow> apply_loop fuel call visitors' m')"
  by (simp add: apply_loop.simps [of "Suc fuel"])

section \<open>Classification and pointer advance of one line\<close>

text \<open>
  Claim C1.  In every iteration of the loop of \<open>apply\<close> that completes, from any state
  of the manager, the visitor is called once with the value returned by \<open>pop_line\<close>,
  and: if the value starts with \<open>-\<close>, the event has no head line number, carries the
  current base line number, and only \<open>base_ln\<close> advances, by 1; if it starts with
  \<open>+\<close>, the event has no base line number, carries the current head line number, and
  only \<open>head_ln\<close> advances, by 1; for every other value (the empty string and "no
  line" included) the event carries both current line numbers and both advance by 1.
\<close>

theorem apply_body_classifies_and_advances:
  assumes "apply_body observe [seen] m = Inr (visitors', m')"
  shows "\<exists>ev. visitors' = [seen @ [ev]] \<and> (\<exists>m1. pop_line m = Inr (ev_value ev, m1)) \<and>
    ((\<exists>rest. ev_value ev = Some (CHR ''-'' # rest)) \<longrightarrow>
       ev_head_ln ev = None \<and> ev_base_ln ev = Some (base_ln m) \<and>
       base_ln m' = base_ln m + 1 \<and> head_ln m' = head_ln m) \<and>
    ((\<exists>rest. ev_value ev = Some (CHR ''+'' # rest)) \<longrightarrow>
       ev_base_ln ev = None \<and> ev_head_ln ev = Some (head_ln m) \<and>
       head_ln m' = head_ln m + 1 \<and> base_ln m' = base_ln m) \<and>
    ((\<nexists>rest. ev_value ev = Some (CHR ''-'' # rest)) \<and>
     (\<nexists>rest. ev_value ev = Some (CHR ''+'' # rest)) \<longrightarrow>
       ev_base_ln ev = Some (base_ln m) \<and> ev_head_ln ev = Some (head_ln m) \<and>
       base_ln m' = base_ln m + 1 \<and> head_ln m' = head_ln m + 1)"
proof -
  from assms obtain v m1 where pop: "pop_line m = Inr (v, m1)"
    by (auto simp: apply_body_def split: sum.splits)
  then have ptr: "base_ln m1 = base_ln m" "head_ln m1 = head_ln m"
    by (simp_all add: pop_line_pointers)
  define ev where "ev = \<lparr>ev_base_ln = (if is_added v then None else Some (base_ln m1)),
                   ev_head_ln = (if is_removed v then None else Some (head_ln m1)),
                   ev_value = v, ev_is_diff = traversing_diff m1\<rparr>"
  from assms pop have vs: "visitors' = [seen @ [ev]]"
    and m': "m' = retire_segment (advance v m1)"
    by (auto simp: apply_body_def observe_def ev_def split: sum.splits)
  have excl: "\<not> (is_added v \<and> is_removed v)"
    by (auto simp: is_added_iff is_removed_iff)
  have val: "ev_value ev = v" by (simp add: ev_def)
  have adv: "base_ln m' = (if is_added v then base_ln m else base_ln m + 1)"
      "head_ln m' = (if is_added v then head_ln m + 1
                     else if is_removed v then head_ln m else head_ln m + 1)"
    using ptr by (simp_all add: m' retire_segment_pointers advance_def)
  show ?thesis
  proof (intro exI [of _ ev] conjI)
    show "visitors' = [seen @ [ev]]" by (rule vs)
    show "\<exists>m1. pop_line m = Inr (ev_value ev, m1)" using pop val by auto
  next
    show "(\<exists>rest. ev_value ev = Some (CHR ''-'' # rest)) \<longrightarrow>
       ev_head_ln ev = None \<and> ev_base_ln ev = Some (base_ln m) \<and>
       base_ln m' = base_ln m + 1 \<and> head_ln m' = head_ln m"
      using adv ptr excl unfolding val is_removed_iff [symmetric] by (auto simp: ev_def)
  next
    show "(\<exists>rest. ev_value ev = Some (CHR ''+'' # rest)) \<longrightarrow>
       ev_base_ln ev = None \<and> ev_head_ln ev = Some (head_ln m) \<and>
       head_ln m' = head_ln m + 1 \<and> base_ln m' = base_ln m"
      using adv ptr excl unfolding val is_added_iff [symmetric] by (auto simp: ev_def)
  next
    show "(\<nexists>rest. ev_value ev = Some (CHR ''-'' # rest)) \<and>
     (\<nexists>rest. ev_value ev = Some (CHR ''+'' # rest)) \<longrightarrow>
       ev_base_ln ev = Some (base_ln m) \<and> ev_head_ln ev = Some (head_ln m) \<and>
       base_ln m' = base_ln m + 1 \<and> head_ln m' = head_ln m + 1"
      using adv ptr unfolding val is_added_iff [symmetric] is_removed_iff [symmetric]
      by (auto simp: ev_def)
  qed
qed

text \<open>The theorem at a manager whose next line is a removed one.\<close>

theorem apply_body_classifies_and_advances_witness:
  "\<exists>ev m'. apply_body observe [[]] example_removed_manager = Inr ([[ev]], m') \<and>
     ev_value ev = Some ''-a'' \<and> ev_head_ln ev = None \<and> ev_base_ln ev = Some 1 \<and>
     base_ln m' = 2 \<and> head_ln m' = 1"
proof -
  obtain vs m' where run: "apply_body observe [[]] example_removed_manager = Inr (vs, m')"
    by (simp add: apply_body_def example_removed_manager_def pop_line_def traversing_diff_def
        int_or_1_def observe_def)
  from apply_body_classifies_and_advances [OF run] obtain ev where
    "vs = [[] @ [ev]]" "\<exists>m1. pop_line example_removed_manager = Inr (ev_value ev, m1)"
    "(\<exists>rest. ev_value ev = Some (CHR ''-'' # rest)) \<longrightarrow>
       ev_head_ln ev = None \<and> ev_base_ln ev = Some (base_ln example_removed_manager) \<and>
       base_ln m' = base_ln example_removed_manager + 1 \<and>
       head_ln m' = head_ln example_removed_manager"
    by blast
  moreover from this(2) have "ev_value ev = Some ''-a''"
    by (simp add: example_removed_manager_def pop_line_def traversing_diff_def int_or_1_def)
  ultimately show ?thesis using run
    by (auto simp: example_removed_manager_def)
qed

section \<open>A file with no diff and no source\<close>

lemma apply_body_no_diff_no_src:
  assumes "segments m = []" "src m = []"
  shows "apply_body observe [seen] m =
     Inr ([seen @ [\<lparr>ev_base_ln = Some (base_ln m), ev_head_ln = Some (head_ln m),
                     ev_value = None, ev_is_diff = False\<rparr>]],
          m\<lparr>head_ln := head_ln m + 1, base_ln := base_ln m + 1\<rparr>)"
  using assms
  by (simp add: apply_body_def pop_line_def traversing_diff_def observe_def is_added_def
      is_removed_def advance_def retire_segment_def)

lemma apply_loop_no_diff_no_src:
  assumes "segments m = []" "src m = []" "base_ln m = i" "head_ln m = i"
    and "n = nat (max (base_file_eof m) (head_file_eof m) - i)" "n \<le> fuel"
  shows "\<exists>m'. apply_loop fuel observe [seen] m =
     Some (Inr ([seen @ map plain_event [i .. max (base_file_eof m) (head_file_eof m) - 1]], m'))"
  using assms
proof (induction n arbitrary: i m seen fuel)
  case 0
  then have "traverse_finished m" by (auto simp: traverse_finished_def)
  moreover from 0 have "max (base_file_eof m) (head_file_eof m) - 1 < i" by linarith
  then have "[i .. max (base_file_eof m) (head_file_eof m) - 1] = []" by simp
  ultimately show ?case by (simp add: apply_loop_finished)
next
  case (Suc n)
  let ?top = "max (base_file_eof m) (head_file_eof m)"
  from Suc.prems have lt: "i < ?top" by linarith
  then have nf: "\<not> traverse_finished m"
    using Suc.prems by (auto simp: traverse_finished_def)
  from Suc.prems obtain fuel' where fuel: "fuel = Suc fuel'" and le: "n \<le> fuel'"
    by (cases fuel) auto
  let ?m = "m\<lparr>head_ln := head_ln m + 1, base_ln := base_ln m + 1\<rparr>"
  have "\<exists>m'. apply_loop fuel' observe [seen @ [plain_event i]] ?m =
     Some (Inr ([(seen @ [plain_event i]) @
                 map plain_event [i + 1 .. max (base_file_eof ?m) (head_file_eof ?m) - 1]], m'))"
    using Suc.prems le by (intro Suc.IH) auto
  then obtain m' where run: "apply_loop fuel' observe [seen @ [plain_event i]] ?m =
     Some (Inr ([seen @ plain_event i # map plain_event [i + 1 .. ?top - 1]], m'))"
    by auto
  have body: "apply_body observe [seen] m = Inr ([seen @ [plain_event i]], ?m)"
    using Suc.prems by (simp add: apply_body_no_diff_no_src plain_event_def)
  have "[i .. ?top - 1] = i # [i + 1 .. ?top - 1]"
    using lt by (simp add: upto_rec1)
  with nf body run show ?case
    by (simp add: apply_loop_Suc fuel)
qed

text \<open>
  Claim C7.  A manager built with no segments and no source, and with both end-of-file
  markers at least 1, finishes within \<open>max(base_file_eof, head_file_eof) - 1\<close>
  iterations; it calls the visitor exactly that many times, and every event carries a
  base line number and a head line number that are equal.
\<close>

theorem no_diff_no_src_visits:
  assumes "1 \<le> base_eof" "1 \<le> head_eof" "nat (max base_eof head_eof - 1) \<le> fuel"
  shows "\<exists>m0 evs m'. traverse_manager_init head_eof base_eof [] [] = Inr m0 \<and>
           apply_loop fuel observe [[]] m0 = Some (Inr ([evs], m')) \<and>
           int (length evs) = max base_eof head_eof - 1 \<and>
           (\<forall>ev \<in> set evs. ev_base_ln ev = ev_head_ln ev \<and> ev_base_ln ev \<noteq> None)"
proof -
  define m0 where "m0 = \<lparr>head_file_eof = head_eof, base_file_eof = base_eof, segments = [],
    src = [], base_ln = 1, head_ln = 1\<rparr>"
  have init: "traverse_manager_init head_eof base_eof [] [] = Inr m0"
    by (simp add: traverse_manager_init_def m0_def)
  have "\<exists>m'. apply_loop fuel observe [[]] m0 =
     Some (Inr ([[] @ map plain_event [1 .. max (base_file_eof m0) (head_file_eof m0) - 1]], m'))"
    using assms by (intro apply_loop_no_diff_no_src [where n = "nat (max base_eof head_eof - 1)"])
      (simp_all add: m0_def)
  then obtain m' where run: "apply_loop fuel observe [[]] m0 =
     Some (Inr ([map plain_event [1 .. max base_eof head_eof - 1]], m'))"
    by (auto simp: m0_def)
  have "int (length (map plain_event [1 .. max base_eof head_eof - 1])) = max base_eof head_eof - 1"
    using assms(1) by (simp add: max_def)
  moreover have "\<forall>ev \<in> set (map plain_event [1 .. max base_eof head_eof - 1]).
      ev_base_ln ev = ev_head_ln ev \<and> ev_base_ln ev \<noteq> None"
    by (simp add: plain_event_def)
  ultimately show ?thesis using init run by blast
qed

text \<open>The theorem for a base file of one line and a head file of three.\<close>

theorem no_diff_no_src_visits_witness:
  "\<exists>evs m'. apply_loop 3 observe [[]]
       \<lparr>head_file_eof = 4, base_file_eof = 2, segments = [], src = [], base_ln = 1, head_ln = 1\<rparr>
         = Some (Inr ([evs], m')) \<and> length evs = 3"
  using no_diff_no_src_visits [of 2 4 3]
  by (auto simp: traverse_manager_init_def)

section \<open>Looking up a coverage line\<close>

lemma get_line_above_range:
  "int (length (rf_lines f)) < n \<Longrightarrow> get_line E (Some f) (Some n) = Inr None"
  by (simp add: get_line_def py_index_def)

lemma get_line_far_below_range:
  "n \<le> - int (length (rf_lines f)) \<Longrightarrow> get_line E (Some f) (Some n) = Inr None"
  by (simp add: get_line_def py_index_def Let_def)

text \<open>
  Claim C6.  The lookup is claimed to return no line for every line number outside
  \<open>1 .. number of lines\<close>.  It does so above the range and for numbers at or below
  minus the number of lines (the two lemmas above), but for line number 0 of a file of
  two lines it returns the coverage of line 2: the index \<open>ln - 1 = -1\<close> is a valid
  Python index, counted from the end, so no IndexError is raised.
\<close>

theorem get_line_zero_wraps_to_last_line:
  "get_line E (Some \<lparr>rf_name = ''a.py'', rf_lines = [Arr example_miss_line, Arr example_hit_line],
                     rf_eof = 3\<rparr>) (Some 0) = Inr (Some example_hit_line)"
  by (simp add: get_line_def py_index_def)

section \<open>Sessions of a line comparison\<close>

lemma reduce_add_ones: "xs \<noteq> [] \<Longrightarrow> reduce_add (map (\<lambda>s. 1) xs) = int (length xs)"
proof -
  have "foldl (+) a (map (\<lambda>s. 1) ys) = a + int (length ys)" for a :: int and ys :: "'b list"
    by (induction ys arbitrary: a) simp_all
  then show "xs \<noteq> [] \<Longrightarrow> reduce_add (map (\<lambda>s. 1) xs) = int (length xs)"
    by (cases xs) (simp_all add: reduce_add_def)
qed

text \<open>
  Claim C10.  \<open>sessions\<close> is absent when the head line is absent; otherwise it is the
  number of session entries of the head line whose coverage equals 1, except that it is
  absent (not 0) when there is no such entry.
\<close>

theorem sessions_counts_hits:
  "sessions lc =
     (case lc_head_line lc of
        None \<Rightarrow> None
      | Some head_line \<Rightarrow>
          (let n = length (filter (\<lambda>s. session_coverage s = CovNum 1) (line_sessions head_line))
           in if n = 0 then None else Some (int n)))"
  by (cases "lc_head_line lc") (simp_all add: sessions_def Let_def reduce_add_ones)

section \<open>The change summary sums to zero\<close>

lemma counter_get_add:
  "counter_get (counter_add k d c) k' = counter_get c k' + (if k = k' then d else 0)"
  by (induction c) auto

lemma summary_key_cases:
  "summary_key E l = Inr k \<Longrightarrow>
     (k = ''hits'' \<and> line_type E (line_coverage l) = Some hit) \<or>
     (k = ''misses'' \<and> line_type E (line_coverage l) = Some miss) \<or>
     (k = ''partials'' \<and> line_type E (line_coverage l) = Some partial)"
proof -
  assume "summary_key E l = Inr k"
  then obtain t where t: "line_type E (line_coverage l) = Some t" "coverage_type_map t = Some k"
    by (auto simp: summary_key_def split: option.splits)
  then show ?thesis by (cases t) auto
qed

lemma update_summary_moves_one:
  assumes "update_summary E s b h = Inr s'"
    and "line_type E (line_coverage b) \<noteq> line_type E (line_coverage h)"
  shows "\<exists>kb kh. kb \<noteq> kh \<and> kb \<in> {''hits'', ''misses'', ''partials''} \<and>
           kh \<in> {''hits'', ''misses'', ''partials''} \<and>
           s' = counter_add kh 1 (counter_add kb (- 1) s)"
proof -
  from assms(1) obtain kb kh where kb: "summary_key E b = Inr kb"
    and kh: "summary_key E h = Inr kh"
    and s': "s' = counter_add kh 1 (counter_add kb (- 1) s)"
    by (auto simp: update_summary_def split: sum.splits)
  from summary_key_cases [OF kb] summary_key_cases [OF kh] assms(2)
  have ne: "kb \<noteq> kh" by auto
  from summary_key_cases [OF kb] have inb: "kb \<in> {''hits'', ''misses'', ''partials''}" by auto
  from summary_key_cases [OF kh] have inh: "kh \<in> {''hits'', ''misses'', ''partials''}" by auto
  show ?thesis
    by (rule exI [of _ kb], rule exI [of _ kh]) (intro conjI ne inb inh s')
qed

lemma summary_total_move:
  assumes "kb \<in> {''hits'', ''misses'', ''partials''}" "kh \<in> {''hits'', ''misses'', ''partials''}"
  shows "summary_total (counter_add kh 1 (counter_add kb (- 1) s)) = summary_total s"
  using assms by (auto simp: summary_total_def counter_get_add)

lemma change_summary_call_cases:
  assumes "visitor_call E (CreateChangeSummaryVisitor bf hf s) ev = Inr v'"
  shows "v' = CreateChangeSummaryVisitor bf hf s \<or>
     (\<exists>kb kh. kb \<noteq> kh \<and> kb \<in> {''hits'', ''misses'', ''partials''} \<and>
           kh \<in> {''hits'', ''misses'', ''partials''} \<and>
           v' = CreateChangeSummaryVisitor bf hf (counter_add kh 1 (counter_add kb (- 1) s)))"
proof (cases "is_added (ev_value ev) \<or> is_removed (ev_value ev)")
  case True
  with assms show ?thesis by simp
next
  case False
  with assms obtain bl hl where
    gl: "get_lines E bf hf (ev_base_ln ev) (ev_head_ln ev) = Inr (bl, hl)"
    by (auto split: sum.splits)
  show ?thesis
  proof (cases "bl = None \<or> hl = None \<or>
      line_type E (line_coverage (the bl)) = line_type E (line_coverage (the hl))")
    case True
    with assms False gl have "v' = CreateChangeSummaryVisitor bf hf s"
      by (auto split: option.splits)
    then show ?thesis ..
  next
    case nontrivial: False
    then obtain b h where bh: "bl = Some b" "hl = Some h"
      and ne: "line_type E (line_coverage b) \<noteq> line_type E (line_coverage h)"
      by auto
    with assms False gl obtain s' where
      upd: "update_summary E s b h = Inr s'" and v': "v' = CreateChangeSummaryVisitor bf hf s'"
      by (auto split: sum.splits)
    from update_summary_moves_one [OF upd ne] obtain kb kh where
      k: "kb \<noteq> kh" "kb \<in> {''hits'', ''misses'', ''partials''}"
         "kh \<in> {''hits'', ''misses'', ''partials''}"
         "s' = counter_add kh 1 (counter_add kb (- 1) s)"
      by (elim exE conjE)
    have "v' = CreateChangeSummaryVisitor bf hf (counter_add kh 1 (counter_add kb (- 1) s))"
      using v' k(4) by simp
    then have "\<exists>kb kh. kb \<noteq> kh \<and> kb \<in> {''hits'', ''misses'', ''partials''} \<and>
           kh \<in> {''hits'', ''misses'', ''partials''} \<and>
           v' = CreateChangeSummaryVisitor bf hf (counter_add kh 1 (counter_add kb (- 1) s))"
      by (intro exI [of _ kb] exI [of _ kh] conjI k)
    then show ?thesis ..
  qed
qed

lemma visitor_call_zero_sum:
  assumes "visitor_call E v ev = Inr v'" "zero_sum_visitor v"
  shows "zero_sum_visitor v'"
proof (cases v)
  case (CreateLineComparisonVisitor bf hf ls)
  with assms(1) show ?thesis by (auto split: if_splits sum.splits)
next
  case (CreateChangeSummaryVisitor bf hf s)
  with assms(1) have "visitor_call E (CreateChangeSummaryVisitor bf hf s) ev = Inr v'" by simp
  from change_summary_call_cases [OF this] show ?thesis
  proof
    assume "v' = CreateChangeSummaryVisitor bf hf s"
    with assms(2) CreateChangeSummaryVisitor show ?thesis by simp
  next
    assume "\<exists>kb kh. kb \<noteq> kh \<and> kb \<in> {''hits'', ''misses'', ''partials''} \<and>
           kh \<in> {''hits'', ''misses'', ''partials''} \<and>
           v' = CreateChangeSummaryVisitor bf hf (counter_add kh 1 (counter_add kb (- 1) s))"
    then obtain kb kh where k: "kb \<in> {''hits'', ''misses'', ''partials''}"
           "kh \<in> {''hits'', ''misses'', ''partials''}"
           "v' = CreateChangeSummaryVisitor bf hf (counter_add kh 1 (counter_add kb (- 1) s))"
      by (elim exE conjE)
    from summary_total_move [OF k(1,2)] assms(2) CreateChangeSummaryVisitor k(3)
    show ?thesis by simp
  qed
qed

lemma call_visitors_zero_sum:
  "call_visitors (visitor_call E) vs ev = Inr vs' \<Longrightarrow> list_all zero_sum_visitor vs \<Longrightarrow>
   list_all zero_sum_visitor vs'"
proof (induction vs arbitrary: vs')
  case Nil
  then show ?case by simp
next
  case (Cons v vs)
  then show ?case
    by (auto split: sum.splits simp del: visitor_call.simps dest: visitor_call_zero_sum)
qed

lemma apply_body_zero_sum:
  "apply_body (visitor_call E) vs m = Inr (vs', m') \<Longrightarrow> list_all zero_sum_visitor vs \<Longrightarrow>
   list_all zero_sum_visitor vs'"
  by (auto simp: apply_body_def split: sum.splits prod.splits dest: call_visitors_zero_sum)

lemma apply_loop_zero_sum:
  "apply_loop fuel (visitor_call E) vs m = Some (Inr (vs', m')) \<Longrightarrow>
   list_all zero_sum_visitor vs \<Longrightarrow> list_all zero_sum_visitor vs'"
proof (induction fuel arbitrary: vs m)
  case 0
  then show ?case by (auto simp: apply_loop.simps [of 0] split: if_splits)
next
  case (Suc fuel)
  show ?case
  proof (cases "traverse_finished m")
    case True
    with Suc.prems show ?thesis by (simp add: apply_loop.simps [of "Suc fuel"])
  next
    case False
    with Suc.prems(1) obtain vs1 m1 where body: "apply_body (visitor_call E) vs m = Inr (vs1, m1)"
      and rest: "apply_loop fuel (visitor_call E) vs1 m1 = Some (Inr (vs', m'))"
      by (auto simp: apply_loop.simps [of "Suc fuel"] split: sum.splits)
    from body Suc.prems(2) have "list_all zero_sum_visitor vs1" by (rule apply_body_zero_sum)
    with rest show ?thesis by (rule Suc.IH)
  qed
qed

lemma visitor_results_zero_sum:
  "list_all zero_sum_visitor vs \<Longrightarrow> summary_total (fst (visitor_results vs)) = 0"
  by (induction vs rule: visitor_results.induct) (simp_all add: summary_total_def)

text \<open>
  Claim C3.  Whenever the pass of a FileComparison returns, the change summary it
  produced, if non-empty, has counts under \<open>hits\<close>, \<open>misses\<close> and \<open>partials\<close>
  that sum to 0.  (Each call of the visitor either leaves the summary as it is or takes
  1 from one of the three keys and adds 1 to a different one: lemma
  \<open>change_summary_call_cases\<close>.)
\<close>

theorem change_summary_sums_to_zero:
  assumes "calculate fuel E fc = Some (Inr ((summary, lns), segs'))" "summary \<noteq> []"
  shows "counter_get summary ''hits'' + counter_get summary ''misses''
           + counter_get summary ''partials'' = 0"
proof -
  let ?vs = "[CreateChangeSummaryVisitor (fc_base_file fc) (fc_head_file fc) [],
              CreateLineComparisonVisitor (fc_base_file fc) (fc_head_file fc) []]"
  have start: "list_all zero_sum_visitor ?vs" by (simp add: summary_total_def)
  from assms(1) have "\<exists>vs'. list_all zero_sum_visitor vs' \<and> (summary, lns) = visitor_results vs'"
  proof (cases "pass_runs fc")
    case False
    with assms(1) have "(summary, lns) = visitor_results ?vs"
      by (simp add: calculate_def Let_def)
    with start show ?thesis by blast
  next
    case True
    with assms(1) obtain m vs' m' where
      "apply_loop fuel (visitor_call E) ?vs m = Some (Inr (vs', m'))"
      "(summary, lns) = visitor_results vs'"
      by (auto simp: calculate_def Let_def split: sum.splits option.splits)
    with start show ?thesis by (blast dest: apply_loop_zero_sum)
  qed
  then obtain vs' where "list_all zero_sum_visitor vs'" "(summary, lns) = visitor_results vs'"
    by blast
  then have "summary_total summary = 0"
    using visitor_results_zero_sum [of vs'] by (metis fst_conv)
  then show ?thesis by (simp add: summary_total_def)
qed


text \<open>The theorem at the file whose only line goes from miss to hit.\<close>

theorem change_summary_sums_to_zero_witness:
  "calculate 1 example_externals example_changed_file =
     Some (Inr (([(''misses'', - 1), (''hits'', 1)], []), [])) \<and>
   counter_get [(''misses'', - 1), (''hits'', 1)] ''hits''
     + counter_get [(''misses'', - 1), (''hits'', 1)] ''misses''
     + counter_get [(''misses'', - 1), (''hits'', 1)] ''partials'' = 0"
proof -
  have run: "calculate 1 example_externals example_changed_file =
     Some (Inr (([(''misses'', - 1), (''hits'', 1)], []), []))"
    by code_simp
  from change_summary_sums_to_zero [OF run] run show ?thesis by simp
qed

section \<open>Truncation of the line list\<close>

lemma reduce_add_sum_list: "xs \<noteq> [] \<Longrightarrow> reduce_add xs = sum_list xs"
proof -
  have "foldl (+) a ys = a + sum_list ys" for a :: int and ys
    by (induction ys arbitrary: a) simp_all
  then show "xs \<noteq> [] \<Longrightarrow> reduce_add xs = sum_list xs"
    by (cases xs) (simp_all add: reduce_add_def)
qed

lemma total_diff_length_count:
  "fc_total_diff_length (FileComparison bf hf dd source bypass hint) = int (raw_line_count dd)"
proof (cases dd)
  case None
  then show ?thesis by (simp add: FileComparison_def raw_line_count_def)
next
  case (Some d)
  have "sum_list (map (\<lambda>s. int (length (seg_lines s))) segs)
          = int (sum_list (map (\<lambda>s. length (seg_lines s)) segs))" for segs :: "segment list"
    by (induction segs) simp_all
  with Some show ?thesis
    by (simp add: FileComparison_def raw_line_count_def reduce_add_sum_list)
qed

lemma calculate_ignores_bypass:
  "calculate fuel E (FileComparison bf hf dd source bypass hint)
     = calculate fuel E (FileComparison bf hf dd source bypass' hint)"
  by (simp add: calculate_def FileComparison_def pass_runs_def Let_def)

lemma change_summary_fresh:
  "fc_calculated fc = None \<Longrightarrow>
   map_option (map_sum id fst) (change_summary fuel E fc)
     = map_option (map_sum id (fst \<circ> fst)) (calculate fuel E fc)"
  by (auto simp: change_summary_def calculated_changes_and_lines_def
      split: option.splits sum.splits)

lemma lines_fresh:
  "fc_calculated fc = None \<Longrightarrow> \<not> (fc_total_diff_length fc > MAX_DIFF_SIZE \<and> \<not> fc_bypass_max_diff fc) \<Longrightarrow>
   map_option (map_sum id fst) (lines fuel E fc)
     = map_option (map_sum id (Some \<circ> snd \<circ> fst)) (calculate fuel E fc)"
  by (auto simp: lines_def calculated_changes_and_lines_def
      split: option.splits sum.splits)

text \<open>
  Claim C4.  For a FileComparison as its constructor builds it: when its segments hold
  more than 170 raw lines and bypass is false, \<open>lines\<close> returns \<open>None\<close> without
  raising (and without running the pass); when they hold at most 170 raw lines, or
  bypass is true, \<open>lines\<close> is the line list of the pass (with the pass's error or
  non-termination); \<open>change_summary\<close> is in every case the summary of the pass, and
  the pass with bypass false is the pass with bypass true.
\<close>

theorem lines_truncated_change_summary_kept:
  "(170 < raw_line_count dd \<longrightarrow>
      lines fuel E (FileComparison bf hf dd source False hint)
        = Some (Inr (None, FileComparison bf hf dd source False hint)))
    \<and> (raw_line_count dd \<le> 170 \<or> bypass \<longrightarrow>
         map_option (map_sum id fst) (lines fuel E (FileComparison bf hf dd source bypass hint))
           = map_option (map_sum id (Some \<circ> snd \<circ> fst))
               (calculate fuel E (FileComparison bf hf dd source bypass hint)))
    \<and> map_option (map_sum id fst)
           (change_summary fuel E (FileComparison bf hf dd source bypass hint))
         = map_option (map_sum id (fst \<circ> fst))
             (calculate fuel E (FileComparison bf hf dd source bypass hint))
    \<and> calculate fuel E (FileComparison bf hf dd source False hint)
         = calculate fuel E (FileComparison bf hf dd source True hint)"
proof -
  define fc where "fc = (\<lambda>b. FileComparison bf hf dd source b hint)"
  have fresh: "fc_calculated (fc b) = None" for b
    by (simp add: fc_def FileComparison_def)
  have len: "fc_total_diff_length (fc b) = int (raw_line_count dd)" for b
    unfolding fc_def by (rule total_diff_length_count)
  have byp: "fc_bypass_max_diff (fc b) = b" for b
    by (simp add: fc_def FileComparison_def)
  have 1: "lines fuel E (fc False) = Some (Inr (None, fc False))" if "170 < raw_line_count dd"
    using that by (simp add: lines_def len byp MAX_DIFF_SIZE_def)
  have 2: "map_option (map_sum id fst) (lines fuel E (fc bypass))
           = map_option (map_sum id (Some \<circ> snd \<circ> fst)) (calculate fuel E (fc bypass))"
    if "raw_line_count dd \<le> 170 \<or> bypass"
    using that by (intro lines_fresh fresh) (auto simp: len byp MAX_DIFF_SIZE_def)
  have 3: "map_option (map_sum id fst) (change_summary fuel E (fc bypass))
         = map_option (map_sum id (fst \<circ> fst)) (calculate fuel E (fc bypass))"
    by (intro change_summary_fresh fresh)
  have 4: "calculate fuel E (fc False) = calculate fuel E (fc True)"
    unfolding fc_def by (rule calculate_ignores_bypass)
  from 1 2 3 4 show ?thesis unfolding fc_def by blast
qed

lemma example_large_count: "raw_line_count (Some example_large_diff) = 171"
  by (simp add: raw_line_count_def example_large_diff_def)

text \<open>The theorem at a diff of 171 added lines, without and with bypass.\<close>

theorem lines_truncated_change_summary_kept_witness:
  "170 < raw_line_count (Some example_large_diff) \<and>
   lines 0 example_externals (FileComparison None None (Some example_large_diff) [] False None)
     = Some (Inr (None, FileComparison None None (Some example_large_diff) [] False None)) \<and>
   map_option (map_sum id fst)
       (lines 0 example_externals (FileComparison None None (Some example_large_diff) [] True None))
     = map_option (map_sum id (Some \<circ> snd \<circ> fst))
         (calculate 0 example_externals
            (FileComparison None None (Some example_large_diff) [] True None))"
  using lines_truncated_change_summary_kept
    [of "Some example_large_diff" 0 example_externals None None "[]" None True]
  by (simp add: example_large_count)


section \<open>When the pass runs\<close>

lemma calculate_skipped:
  "\<not> pass_runs fc \<Longrightarrow> calculate fuel E fc = Some (Inr (([], []), []))"
  by (auto simp: calculate_def pass_runs_def Let_def)

lemma calculate_runs:
  "pass_runs fc \<Longrightarrow>
   calculate fuel E fc =
     (case traverse_manager_init
             (case fc_head_file fc of None \<Rightarrow> 0 | Some f \<Rightarrow> rf_eof f)
             (case fc_base_file fc of None \<Rightarrow> 0 | Some f \<Rightarrow> rf_eof f)
             (case fc_diff_data fc of None \<Rightarrow> [] | Some d \<Rightarrow> dd_segments d)
             (fc_src fc) of
        Inl e \<Rightarrow> Some (Inl e)
      | Inr m \<Rightarrow>
          map_option (map_sum id (\<lambda>(vs, m'). (visitor_results vs, segments m')))
            (apply_loop fuel (visitor_call E)
               [CreateChangeSummaryVisitor (fc_base_file fc) (fc_head_file fc) [],
                CreateLineComparisonVisitor (fc_base_file fc) (fc_head_file fc) []] m))"
  by (auto simp: calculate_def Let_def split: sum.splits option.splits)

lemma calculated_first_access:
  "fc_calculated fc = None \<Longrightarrow>
   calculated_changes_and_lines fuel E fc =
     map_option
       (map_sum id
          (\<lambda>(r, segs').
             (r, fc\<lparr>fc_diff_data :=
                       map_option (\<lambda>d. d\<lparr>dd_segments := segs'\<rparr>) (fc_diff_data fc),
                     fc_calculated := Some r\<rparr>)))
       (calculate fuel E fc)"
  by (auto simp: calculated_changes_and_lines_def split: option.splits sum.splits)

lemma calculated_memoized:
  assumes "calculated_changes_and_lines fuel E fc = Some (Inr (r, fc'))"
  shows "calculated_changes_and_lines fuel2 E2 fc' = Some (Inr (r, fc'))"
proof (cases "fc_calculated fc")
  case None
  with assms have "fc_calculated fc' = Some r"
    by (auto simp: calculated_changes_and_lines_def split: option.splits sum.splits)
  then show ?thesis by (simp add: calculated_changes_and_lines_def)
next
  case (Some r0)
  with assms have "fc' = fc" "r = r0" by (simp_all add: calculated_changes_and_lines_def)
  with Some show ?thesis by (simp add: calculated_changes_and_lines_def)
qed

lemma constructed_not_calculated:
  "fc_calculated (FileComparison bf hf dd source bypass hint) = None"
  by (simp add: FileComparison_def)

text \<open>
  Claim C5.  The pass is skipped, leaving an empty summary and an empty line list, when
  the file has no diff and the hint is \<open>False\<close>; in every other case (a diff, or the
  hint \<open>True\<close> or \<open>None\<close>) the result is that of \<open>apply\<close> with the two visitors on
  the manager built from the file.  The first access to
  \<open>_calculated_changes_and_lines\<close> (nothing stored yet, as in every object the
  constructor builds: lemma \<open>constructed_not_calculated\<close>) does exactly that: it
  returns, raises or runs on as the pass does, and when the pass returns it stores the
  value, the segments of the diff being the ones the pass has left.  Once an access has
  returned, every later access returns the same value and leaves the object as it is,
  whatever the fuel and the library functions: the pass is not run again.
\<close>

theorem pass_skipped_only_without_diff_and_hint_false:
  "(\<not> has_diff fc \<and> fc_should_search_for_changes fc = Some False \<longrightarrow>
      calculate fuel E fc = Some (Inr (([], []), [])))
   \<and> (has_diff fc \<or> fc_should_search_for_changes fc \<noteq> Some False \<longrightarrow>
      calculate fuel E fc =
        (case traverse_manager_init
                (case fc_head_file fc of None \<Rightarrow> 0 | Some f \<Rightarrow> rf_eof f)
                (case fc_base_file fc of None \<Rightarrow> 0 | Some f \<Rightarrow> rf_eof f)
                (case fc_diff_data fc of None \<Rightarrow> [] | Some d \<Rightarrow> dd_segments d)
                (fc_src fc) of
           Inl e \<Rightarrow> Some (Inl e)
         | Inr m \<Rightarrow>
             map_option (map_sum id (\<lambda>(vs, m'). (visitor_results vs, segments m')))
               (apply_loop fuel (visitor_call E)
                  [CreateChangeSummaryVisitor (fc_base_file fc) (fc_head_file fc) [],
                   CreateLineComparisonVisitor (fc_base_file fc) (fc_head_file fc) []] m)))
   \<and> (fc_calculated fc = None \<longrightarrow>
        calculated_changes_and_lines fuel E fc =
          map_option
            (map_sum id
               (\<lambda>(r, segs').
                  (r, fc\<lparr>fc_diff_data :=
                            map_option (\<lambda>d. d\<lparr>dd_segments := segs'\<rparr>) (fc_diff_data fc),
                          fc_calculated := Some r\<rparr>)))
            (calculate fuel E fc))
   \<and> (calculated_changes_and_lines fuel E fc = Some (Inr (r, fc')) \<longrightarrow>
        calculated_changes_and_lines fuel2 E2 fc' = Some (Inr (r, fc')))"
proof (intro conjI impI)
  assume "\<not> has_diff fc \<and> fc_should_search_for_changes fc = Some False"
  then have "\<not> pass_runs fc" by (simp add: pass_runs_def has_diff_def)
  then show "calculate fuel E fc = Some (Inr (([], []), []))" by (rule calculate_skipped)
next
  assume "has_diff fc \<or> fc_should_search_for_changes fc \<noteq> Some False"
  then have "pass_runs fc" by (simp add: pass_runs_def has_diff_def)
  then show "calculate fuel E fc =
        (case traverse_manager_init
                (case fc_head_file fc of None \<Rightarrow> 0 | Some f \<Rightarrow> rf_eof f)
                (case fc_base_file fc of None \<Rightarrow> 0 | Some f \<Rightarrow> rf_eof f)
                (case fc_diff_data fc of None \<Rightarrow> [] | Some d \<Rightarrow> dd_segments d)
                (fc_src fc) of
           Inl e \<Rightarrow> Some (Inl e)
         | Inr m \<Rightarrow>
             map_option (map_sum id (\<lambda>(vs, m'). (visitor_results vs, segments m')))
               (apply_loop fuel (visitor_call E)
                  [CreateChangeSummaryVisitor (fc_base_file fc) (fc_head_file fc) [],
                   CreateLineComparisonVisitor (fc_base_file fc) (fc_head_file fc) []] m))"
    by (rule calculate_runs)
next
  assume "fc_calculated fc = None"
  then show "calculated_changes_and_lines fuel E fc =
          map_option
            (map_sum id
               (\<lambda>(r, segs').
                  (r, fc\<lparr>fc_diff_data :=
                            map_option (\<lambda>d. d\<lparr>dd_segments := segs'\<rparr>) (fc_diff_data fc),
                          fc_calculated := Some r\<rparr>)))
            (calculate fuel E fc)"
    by (rule calculated_first_access)
next
  assume "calculated_changes_and_lines fuel E fc = Some (Inr (r, fc'))"
  then show "calculated_changes_and_lines fuel2 E2 fc' = Some (Inr (r, fc'))"
    by (rule calculated_memoized)
qed

text \<open>
  The theorem at two constructed objects.  For the file known to be unchanged the first
  access returns the empty results without a pass (no fuel).  For the file whose line
  goes from miss to hit the first access returns the results of the pass, and an access
  to the object it leaves returns them again with no fuel.
\<close>

theorem pass_skipped_only_without_diff_and_hint_false_witness:
  "calculated_changes_and_lines 0 example_externals example_known_unchanged_file
     = Some (Inr (([], []),
          example_known_unchanged_file\<lparr>fc_calculated := Some ([], [])\<rparr>))
   \<and> calculated_changes_and_lines 0 example_externals example_changed_file = None
   \<and> (\<exists>fc'. calculated_changes_and_lines 2 example_externals example_changed_file
               = Some (Inr (([(''misses'', - 1), (''hits'', 1)], []), fc'))
           \<and> calculated_changes_and_lines 0 example_externals fc'
               = Some (Inr (([(''misses'', - 1), (''hits'', 1)], []), fc')))"
proof -
  note main = pass_skipped_only_without_diff_and_hint_false
  have skip: "\<not> has_diff example_known_unchanged_file \<and>
      fc_should_search_for_changes example_known_unchanged_file = Some False"
    by (simp add: example_known_unchanged_file_def FileComparison_def has_diff_def)
  have fresh: "fc_calculated example_known_unchanged_file = None"
    "fc_calculated example_changed_file = None"
    by (simp_all add: example_known_unchanged_file_def example_changed_file_def
        constructed_not_calculated)
  have nodiff: "fc_diff_data example_known_unchanged_file = None"
    by (simp add: example_known_unchanged_file_def FileComparison_def)
  from main [of example_known_unchanged_file 0 example_externals] skip
  have "calculate 0 example_externals example_known_unchanged_file = Some (Inr (([], []), []))"
    by blast
  with main [of example_known_unchanged_file 0 example_externals] fresh(1)
  have 1: "calculated_changes_and_lines 0 example_externals example_known_unchanged_file
     = Some (Inr (([], []), example_known_unchanged_file\<lparr>fc_calculated := Some ([], [])\<rparr>))"
    by (simp add: nodiff)
  have "calculate 0 example_externals example_changed_file = None"
    by code_simp
  with main [of example_changed_file 0 example_externals] fresh(2)
  have 2: "calculated_changes_and_lines 0 example_externals example_changed_file = None"
    by simp
  have "calculate 2 example_externals example_changed_file
       = Some (Inr (([(''misses'', - 1), (''hits'', 1)], []), []))"
    by code_simp
  with main [of example_changed_file 2 example_externals] fresh(2)
  obtain fc' where first:
    "calculated_changes_and_lines 2 example_externals example_changed_file
       = Some (Inr (([(''misses'', - 1), (''hits'', 1)], []), fc'))"
    by simp
  with main [of example_changed_file 2 example_externals _ fc' 0 example_externals]
  have "calculated_changes_and_lines 0 example_externals fc'
               = Some (Inr (([(''misses'', - 1), (''hits'', 1)], []), fc'))"
    by blast
  with 1 2 first show ?thesis by blast
qed

section \<open>The hint read back from the cache\<close>

lemma map_of_store_put: "map_of (store_put k v kvs) = (map_of kvs)(k \<mapsto> v)"
  by (induction kvs) auto

lemma retrieve_after_write:
  assumes "redis_set r (cache_key s u n p) (json_dumps (Some names)) = Inr r1"
  shows "retrieve_files_with_changes_from_cache r1 s u n (Some p) = Some names"
  using assms
  by (auto simp: redis_set_def redis_get_def retrieve_files_with_changes_from_cache_def
      map_of_store_put json_dumps_def json_loads_names_def split: if_splits)

text \<open>
  Claim C8, amended.  After the list \<open>["a.py", "b.py"]\<close> has been written for a pull
  request, a Comparison constructed for the same repository and pull id passes to each
  FileComparison the hint \<open>True\<close> for \<open>a.py\<close> and \<open>b.py\<close> and the hint \<open>False\<close>
  for every other file name: the hint is membership in the cached list.
\<close>

theorem hint_after_cache_write_is_membership:
  assumes "cmp_pullid c = Some p" "cmp_files_with_changes c = None"
    and "set_files_with_changes_in_cache_if_not_already_set c r [''a.py'', ''b.py''] = Inr r1"
  shows "fc_should_search_for_changes
           (get_file_comparison
              (Comparison r1 (cmp_service c) (cmp_username c) (cmp_repo_name c) (Some p)
                 head_report base_report diff_files)
              file_name with_src bypass)
         = Some (file_name = ''a.py'' \<or> file_name = ''b.py'')"
proof -
  from assms have "redis_set r (cache_key (cmp_service c) (cmp_username c) (cmp_repo_name c) p)
      (json_dumps (Some [''a.py'', ''b.py''])) = Inr r1"
    by (simp add: set_files_with_changes_in_cache_if_not_already_set_def)
  then have "retrieve_files_with_changes_from_cache r1 (cmp_service c) (cmp_username c)
      (cmp_repo_name c) (Some p) = Some [''a.py'', ''b.py'']"
    by (rule retrieve_after_write)
  then show ?thesis
    by (simp add: get_file_comparison_def Comparison_def FileComparison_def Let_def)
qed

text \<open>The theorem at the example comparison and the file \<open>a.py\<close>.\<close>

theorem hint_after_cache_write_is_membership_witness:
  "fc_should_search_for_changes
     (get_file_comparison (example_comparison example_written_redis) ''a.py'' None False)
   = Some True"
proof -
  have c: "cmp_pullid (example_comparison example_empty_redis) = Some 7"
     "cmp_files_with_changes (example_comparison example_empty_redis) = None"
     "cmp_service (example_comparison example_empty_redis) = ''github''"
     "cmp_username (example_comparison example_empty_redis) = ''codecov''"
     "cmp_repo_name (example_comparison example_empty_redis) = ''api''"
    by (simp_all add: example_comparison_def Comparison_def example_empty_redis_def
        retrieve_files_with_changes_from_cache_def redis_get_def json_dumps_def
        json_loads_names_def)
  have w: "set_files_with_changes_in_cache_if_not_already_set
          (example_comparison example_empty_redis) example_empty_redis [''a.py'', ''b.py'']
        = Inr example_written_redis"
    by code_simp
  have "fc_should_search_for_changes
     (get_file_comparison
        (Comparison example_written_redis ''github'' ''codecov'' ''api'' (Some 7) hr br df)
        ''a.py'' None False) = Some True" for hr br df
    using hint_after_cache_write_is_membership
      [OF c(1,2) w, where file_name = "''a.py''" and with_src = None and bypass = False
        and head_report = hr and base_report = br and diff_files = df]
    unfolding c by simp
  then show ?thesis
    unfolding example_comparison_def .
qed

text \<open>
  Claim C8 as stated fails: after the write, the hint for \<open>c.py\<close>, a name that is
  not in the cached list, is \<open>False\<close>, not unknown (\<open>None\<close>).
\<close>

theorem hint_for_unlisted_file_is_false:
  "set_files_with_changes_in_cache_if_not_already_set
     (example_comparison example_empty_redis) example_empty_redis [''a.py'', ''b.py'']
     = Inr example_written_redis
   \<and> fc_should_search_for_changes
       (get_file_comparison (example_comparison example_written_redis) ''c.py'' None False)
     = Some False
   \<and> fc_should_search_for_changes
       (get_file_comparison (example_comparison example_written_redis) ''c.py'' None False)
     \<noteq> None"
  by code_simp




section \<open>Writing the cache when the files are exhausted\<close>

lemma set_cache_result:
  "set_files_with_changes_in_cache_if_not_already_set c r names = Inr r' \<Longrightarrow>
   r' = cache_after_exhaustion c r names"
  by (auto simp: set_files_with_changes_in_cache_if_not_already_set_def cache_after_exhaustion_def
      redis_set_def json_dumps_def split: option.splits if_splits)

lemma set_cache_returns:
  assumes "cmp_files_with_changes c = None \<and> cmp_pullid c \<noteq> None \<longrightarrow> redis_up r"
  shows "set_files_with_changes_in_cache_if_not_already_set c r names
           = Inr (cache_after_exhaustion c r names)"
  using assms
  by (auto simp: set_files_with_changes_in_cache_if_not_already_set_def cache_after_exhaustion_def
      redis_set_def json_dumps_def split: option.splits)

lemma set_cache_agrees:
  "agrees c c1 names \<Longrightarrow>
   set_files_with_changes_in_cache_if_not_already_set c1 r xs
     = set_files_with_changes_in_cache_if_not_already_set c r xs"
  by (auto simp: agrees_def set_files_with_changes_in_cache_if_not_already_set_def
      split: option.splits)

lemma map_of_share:
  "f \<noteq> g \<Longrightarrow>
   map_of (map (\<lambda>(name, d0). if name = g then (name, d) else (name, d0)) kvs) f = map_of kvs f"
  by (induction kvs) auto

lemma get_file_comparison_share:
  "f \<noteq> g \<Longrightarrow>
   get_file_comparison (share_diff_entry c g fc) f w b = get_file_comparison c f w b"
  by (cases "fc_diff_data fc")
     (simp_all add: share_diff_entry_def get_file_comparison_def map_of_share)

lemma agrees_share:
  assumes "agrees c c1 (f # rest)" "f \<notin> set rest"
  shows "agrees c (share_diff_entry c1 f fc) rest"
proof -
  have same: "cmp_files_with_changes (share_diff_entry c1 f fc) = cmp_files_with_changes c1"
    "cmp_pullid (share_diff_entry c1 f fc) = cmp_pullid c1"
    "cmp_service (share_diff_entry c1 f fc) = cmp_service c1"
    "cmp_username (share_diff_entry c1 f fc) = cmp_username c1"
    "cmp_repo_name (share_diff_entry c1 f fc) = cmp_repo_name c1"
    by (cases "fc_diff_data fc"; simp add: share_diff_entry_def)+
  have "get_file_comparison (share_diff_entry c1 f fc) f' None False
          = get_file_comparison c f' None False" if "f' \<in> set rest" for f'
  proof -
    from that assms(2) have "f' \<noteq> f" by auto
    then have "get_file_comparison (share_diff_entry c1 f fc) f' None False
                 = get_file_comparison c1 f' None False"
      by (rule get_file_comparison_share)
    also from assms(1) that have "\<dots> = get_file_comparison c f' None False"
      by (simp add: agrees_def list_all_iff)
    finally show ?thesis .
  qed
  with assms(1) show ?thesis
    by (simp add: agrees_def same list_all_iff)
qed

lemma pass_returns_result:
  "pass_returns fuel E c f \<Longrightarrow>
   change_summary fuel E (get_file_comparison c f None False)
     = Some (Inr (fst (pass_result fuel E c f), snd (pass_result fuel E c f)))"
  by (auto simp: pass_returns_def pass_result_def split: option.splits sum.splits)

lemma changed_names_Cons:
  "changed_names fuel E c (f # fs) =
     (if fst (pass_result fuel E c f) \<noteq> [] then [f] else []) @ changed_names fuel E c fs"
  by (simp add: changed_names_def)

lemma files_consume_runs:
  assumes "distinct ps" "agrees c c1 ps" "\<not> gen_returned g" "gen_pending g = ps"
    and "list_all (pass_returns fuel E c) (take n ps)"
    and "length ps < n \<and> cmp_files_with_changes c = None \<and> cmp_pullid c \<noteq> None \<longrightarrow> redis_up r"
  shows "\<exists>c'. files_consume n fuel E c1 g r =
     Some (Inr (map (\<lambda>f. snd (pass_result fuel E c f)) (take n ps), c',
                \<lparr>gen_pending = drop n ps,
                 gen_files_with_changes =
                   gen_files_with_changes g @ changed_names fuel E c (take n ps),
                 gen_returned = (length ps < n)\<rparr>,
                (if length ps < n
                 then cache_after_exhaustion c r
                        (gen_files_with_changes g @ changed_names fuel E c ps)
                 else r)))"
  using assms
proof (induction n arbitrary: ps c1 g)
  case 0
  have "g = \<lparr>gen_pending = ps, gen_files_with_changes = gen_files_with_changes g,
             gen_returned = False\<rparr>"
    using "0.prems"(3,4) by (cases g) simp
  then show ?case by (simp add: changed_names_def)
next
  case (Suc n)
  show ?case
  proof (cases ps)
    case Nil
    from Suc.prems(2) have same: "cmp_files_with_changes c1 = cmp_files_with_changes c"
      "cmp_pullid c1 = cmp_pullid c" by (simp_all add: agrees_def)
    from Suc.prems(6) Nil have "cmp_files_with_changes c = None \<and> cmp_pullid c \<noteq> None \<longrightarrow> redis_up r"
      by simp
    from set_cache_returns [OF this]
    have "set_files_with_changes_in_cache_if_not_already_set c1 r (gen_files_with_changes g)
            = Inr (cache_after_exhaustion c r (gen_files_with_changes g))"
      by (simp add: set_cache_agrees [OF Suc.prems(2)])
    moreover have "g\<lparr>gen_returned := True\<rparr> =
        \<lparr>gen_pending = [], gen_files_with_changes = gen_files_with_changes g,
         gen_returned = True\<rparr>"
      using Suc.prems(4) Nil by (cases g) simp
    ultimately show ?thesis
      using Suc.prems(3,4) Nil by (simp add: files_next_def changed_names_def)
  next
    case (Cons f rest)
    let ?res = "pass_result fuel E c f"
    from Suc.prems(5) Cons have ret: "pass_returns fuel E c f"
      and rest_ret: "list_all (pass_returns fuel E c) (take n rest)" by simp_all
    from Suc.prems(2) Cons have "get_file_comparison c1 f None False = get_file_comparison c f None False"
      by (simp add: agrees_def)
    with pass_returns_result [OF ret]
    have cs: "change_summary fuel E (get_file_comparison c1 f None False)
                = Some (Inr (fst ?res, snd ?res))" by simp
    define g1 where "g1 = g\<lparr>gen_pending := rest,
        gen_files_with_changes :=
          (if fst ?res \<noteq> [] then gen_files_with_changes g @ [f] else gen_files_with_changes g)\<rparr>"
    define c2 where "c2 = share_diff_entry c1 f (snd ?res)"
    have nx: "files_next fuel E c1 g r = Some (Inr (Some (snd ?res), c2, g1, r))"
      using Suc.prems(3,4) Cons cs
      by (simp add: files_next_def g1_def c2_def split: prod.splits)
    from Suc.prems(1) Cons have d: "distinct rest" "f \<notin> set rest" by simp_all
    from Suc.prems(2) Cons d(2) have ag: "agrees c c2 rest"
      unfolding c2_def by (intro agrees_share) simp_all
    have g1: "\<not> gen_returned g1" "gen_pending g1 = rest"
      "gen_files_with_changes g1 = gen_files_with_changes g @ (if fst ?res \<noteq> [] then [f] else [])"
      using Suc.prems(3) by (simp_all add: g1_def)
    from Suc.prems(6) Cons
    have up: "length rest < n \<and> cmp_files_with_changes c = None \<and> cmp_pullid c \<noteq> None \<longrightarrow> redis_up r"
      by simp
    from Suc.IH [OF d(1) ag g1(1,2) rest_ret up] obtain c' where
      run: "files_consume n fuel E c2 g1 r =
        Some (Inr (map (\<lambda>f. snd (pass_result fuel E c f)) (take n rest), c',
                \<lparr>gen_pending = drop n rest,
                 gen_files_with_changes =
                   gen_files_with_changes g1 @ changed_names fuel E c (take n rest),
                 gen_returned = (length rest < n)\<rparr>,
                (if length rest < n
                 then cache_after_exhaustion c r
                        (gen_files_with_changes g1 @ changed_names fuel E c rest)
                 else r)))"
      by blast
    show ?thesis
      by (rule exI [of _ c']) (simp add: nx run Cons g1(3) changed_names_Cons)
  qed
qed


text \<open>
  Claim C9.  Take a comparison whose head report lists each file once, \<open>n\<close> calls of
  \<open>next()\<close> on the generator of \<open>files\<close>, the change summary of each file reached
  returning, and the cache reachable if it is to be written.  Then the calls return:
  they yield the FileComparisons of the first \<open>n\<close> files after their passes; the
  accumulated list is the names, among those, of the files whose change summary is
  non-empty; the generator is exhausted exactly when \<open>n\<close> exceeds the number of files;
  and the cache afterwards is the one before, except that when the generator is
  exhausted, the probe at construction gave no value and the pull id is present, the
  list of all the files with a non-empty change summary is written under the key of the
  pull request.  So nothing is written when the generator is not exhausted, when the
  probe gave a value, or when the pull id is absent.  (The probe gives no value exactly
  when the cache was unreachable or held nothing or null for the key: lemma
  \<open>probe_empty_iff\<close>; a list it found is never overwritten: lemma
  \<open>cached_list_never_overwritten\<close>.)
\<close>

theorem files_exhaustion_writes_cache_iff_probe_empty:
  assumes "distinct (report_files (cmp_head_report c))"
    and "list_all (pass_returns fuel E c) (take n (report_files (cmp_head_report c)))"
    and "length (report_files (cmp_head_report c)) < n \<and>
         cmp_files_with_changes c = None \<and> cmp_pullid c \<noteq> None \<longrightarrow> redis_up r"
  shows "\<exists>c'. files_consume n fuel E c (files c) r =
     Some (Inr (map (\<lambda>f. snd (pass_result fuel E c f))
                  (take n (report_files (cmp_head_report c))),
                c',
                \<lparr>gen_pending = drop n (report_files (cmp_head_report c)),
                 gen_files_with_changes =
                   changed_names fuel E c (take n (report_files (cmp_head_report c))),
                 gen_returned = (length (report_files (cmp_head_report c)) < n)\<rparr>,
                (if length (report_files (cmp_head_report c)) < n
                 then (case (cmp_files_with_changes c, cmp_pullid c) of
                         (None, Some pull) \<Rightarrow>
                           r\<lparr>redis_store :=
                                store_put (cache_key (cmp_service c) (cmp_username c)
                                             (cmp_repo_name c) pull)
                                  (JStrings (changed_names fuel E c
                                               (report_files (cmp_head_report c))))
                                  (redis_store r)\<rparr>
                       | _ \<Rightarrow> r)
                 else r)))"
proof -
  have ag: "agrees c c (report_files (cmp_head_report c))"
    by (simp add: agrees_def list_all_iff)
  have g: "\<not> gen_returned (files c)" "gen_pending (files c) = report_files (cmp_head_report c)"
    "gen_files_with_changes (files c) = []"
    by (simp_all add: files_def)
  from files_consume_runs [OF assms(1) ag g(1,2) assms(2,3)] show ?thesis
    unfolding g(3) cache_after_exhaustion_def append_Nil .
qed

lemma share_diff_entry_keeps:
  "cmp_files_with_changes (share_diff_entry c f fc) = cmp_files_with_changes c"
  "cmp_pullid (share_diff_entry c f fc) = cmp_pullid c"
  by (cases "fc_diff_data fc"; simp add: share_diff_entry_def)+

lemma files_consume_no_write:
  assumes "files_consume n fuel E c g r = Some (Inr (fcs, c', g', r'))"
    and "cmp_files_with_changes c \<noteq> None \<or> cmp_pullid c = None"
  shows "r' = r"
  using assms
proof (induction n arbitrary: c g fcs)
  case 0
  then show ?case by simp
next
  case (Suc n)
  from Suc.prems(1) obtain y c1 g1 r1 where
    nx: "files_next fuel E c g r = Some (Inr (y, c1, g1, r1))"
    by (auto split: option.splits sum.splits)
  have r1: "r1 = r"
  proof (cases "gen_returned g")
    case True
    with nx show ?thesis by (simp add: files_next_def)
  next
    case False
    show ?thesis
    proof (cases "gen_pending g")
      case Nil
      with nx False obtain r2 where
        "set_files_with_changes_in_cache_if_not_already_set c r (gen_files_with_changes g) = Inr r2"
        "r1 = r2"
        by (auto simp: files_next_def split: sum.splits)
      with Suc.prems(2) show ?thesis
        by (auto simp: set_files_with_changes_in_cache_if_not_already_set_def
            split: option.splits)
    next
      case (Cons f rest)
      with nx False show ?thesis
        by (auto simp: files_next_def split: option.splits sum.splits)
    qed
  qed
  show ?case
  proof (cases y)
    case None
    with Suc.prems(1) nx r1 show ?thesis by simp
  next
    case (Some fc)
    with Suc.prems(1) nx r1 obtain fcs1 where
      rest: "files_consume n fuel E c1 g1 r = Some (Inr (fcs1, c', g', r'))"
      by (auto split: option.splits sum.splits)
    have "cmp_files_with_changes c1 = cmp_files_with_changes c \<and> cmp_pullid c1 = cmp_pullid c"
    proof (cases "gen_returned g")
      case True
      with nx Some show ?thesis by (simp add: files_next_def)
    next
      case False
      with nx Some show ?thesis
        by (cases "gen_pending g")
           (auto simp: files_next_def share_diff_entry_keeps split: option.splits sum.splits)
    qed
    with Suc.prems(2) have "cmp_files_with_changes c1 \<noteq> None \<or> cmp_pullid c1 = None" by simp
    with rest show ?thesis by (rule Suc.IH)
  qed
qed

lemma probe_empty_iff:
  "cmp_files_with_changes (Comparison r0 s u nm (Some p) hr br df) = None \<longleftrightarrow>
     \<not> redis_up r0 \<or> map_of (redis_store r0) (cache_key s u nm p) \<in> {None, Some JNull}"
  by (auto simp: Comparison_def retrieve_files_with_changes_from_cache_def redis_get_def
      json_dumps_def json_loads_names_def split: option.splits json_doc.splits)

text \<open>
  A list found in a reachable cache at construction is never overwritten, however far
  the generator is consumed.
\<close>

lemma cached_list_never_overwritten:
  assumes "redis_up r0" "map_of (redis_store r0) (cache_key s u nm p) = Some (JStrings names)"
    and "files_consume n fuel E (Comparison r0 s u nm (Some p) hr br df)
           (files (Comparison r0 s u nm (Some p) hr br df)) r = Some (Inr (fcs, c', g', r'))"
  shows "r' = r"
proof -
  from assms(1,2)
  have "cmp_files_with_changes (Comparison r0 s u nm (Some p) hr br df) \<noteq> None"
    by (simp add: probe_empty_iff)
  with assms(3) show ?thesis by (intro files_consume_no_write) auto
qed

text \<open>
  When the write is due and the cache is unreachable, exhausting the generator raises.
\<close>

lemma write_to_unreachable_cache_raises:
  assumes "cmp_files_with_changes c = None" "cmp_pullid c = Some p" "\<not> redis_up r"
    and "gen_pending g = []" "\<not> gen_returned g"
  shows "files_next fuel E c g r = Some (Inl OSError)"
  using assms
  by (simp add: files_next_def set_files_with_changes_in_cache_if_not_already_set_def
      redis_set_def)

text \<open>
  The theorem at the example comparison, built against the empty cache: exhausted by two
  calls, which write the list with its one changed file, and not exhausted by one.
\<close>

theorem files_exhaustion_writes_cache_iff_probe_empty_witness:
  "(\<exists>fcs c'.
      files_consume 2 2 example_externals (example_comparison example_empty_redis)
        (files (example_comparison example_empty_redis)) example_empty_redis
      = Some (Inr (fcs, c',
                   \<lparr>gen_pending = [], gen_files_with_changes = [''a.py''],
                    gen_returned = True\<rparr>,
                   \<lparr>redis_up = True,
                    redis_store = [(''compare-changed-files/github/codecov/api/7'',
                                    JStrings [''a.py''])]\<rparr>)) \<and>
      length fcs = 1) \<and>
   (\<exists>fcs c'.
      files_consume 1 2 example_externals (example_comparison example_empty_redis)
        (files (example_comparison example_empty_redis)) example_empty_redis
      = Some (Inr (fcs, c',
                   \<lparr>gen_pending = [], gen_files_with_changes = [''a.py''],
                    gen_returned = False\<rparr>,
                   example_empty_redis)) \<and>
      length fcs = 1)"
proof -
  let ?c = "example_comparison example_empty_redis"
  have names: "report_files (cmp_head_report ?c) = [''a.py'']"
    by code_simp
  have dist: "distinct (report_files (cmp_head_report ?c))"
    by (simp add: names)
  have c: "cmp_pullid ?c = Some 7" "cmp_files_with_changes ?c = None"
    by (simp_all add: example_comparison_def Comparison_def example_empty_redis_def
        retrieve_files_with_changes_from_cache_def redis_get_def json_dumps_def
        json_loads_names_def)
  have key: "cache_key (cmp_service ?c) (cmp_username ?c) (cmp_repo_name ?c) 7
             = ''compare-changed-files/github/codecov/api/7''"
    by code_simp
  have ret: "list_all (pass_returns 2 example_externals ?c)
               (take n (report_files (cmp_head_report ?c)))" for n
  proof -
    have "list_all (pass_returns 2 example_externals ?c) [''a.py'']" by code_simp
    then show ?thesis by (cases n) (simp_all add: names)
  qed
  have changed: "changed_names 2 example_externals ?c [''a.py''] = [''a.py'']"
    by code_simp
  have up: "length (report_files (cmp_head_report ?c)) < n \<and>
         cmp_files_with_changes ?c = None \<and> cmp_pullid ?c \<noteq> None \<longrightarrow>
         redis_up example_empty_redis" for n
    by (simp add: example_empty_redis_def)
  have written: "example_empty_redis
      \<lparr>redis_store := store_put ''compare-changed-files/github/codecov/api/7''
                         (JStrings [''a.py'']) (redis_store example_empty_redis)\<rparr>
      = \<lparr>redis_up = True,
         redis_store = [(''compare-changed-files/github/codecov/api/7'',
                         JStrings [''a.py''])]\<rparr>"
    by (simp add: example_empty_redis_def)
  have two: "\<exists>fcs c'.
      files_consume 2 2 example_externals ?c (files ?c) example_empty_redis
      = Some (Inr (fcs, c',
                   \<lparr>gen_pending = [], gen_files_with_changes = [''a.py''],
                    gen_returned = True\<rparr>,
                   \<lparr>redis_up = True,
                    redis_store = [(''compare-changed-files/github/codecov/api/7'',
                                    JStrings [''a.py''])]\<rparr>)) \<and>
      length fcs = 1"
    using files_exhaustion_writes_cache_iff_probe_empty [OF dist ret up, of 2]
    by (auto simp: names changed c key written)
  have one: "\<exists>fcs c'.
      files_consume 1 2 example_externals ?c (files ?c) example_empty_redis
      = Some (Inr (fcs, c',
                   \<lparr>gen_pending = [], gen_files_with_changes = [''a.py''],
                    gen_returned = False\<rparr>,
                   example_empty_redis)) \<and>
      length fcs = 1"
    using files_exhaustion_writes_cache_iff_probe_empty [OF dist ret up, of 1]
    by (auto simp: names changed)
  from two one show ?thesis by (rule conjI)
qed

section \<open>Termination of the pass\<close>

lemma traversing_diff_Cons:
  "segments m = s # rest \<Longrightarrow>
   traversing_diff m \<longleftrightarrow>
     (base_offset s \<le> base_ln m \<and> base_ln m < base_offset s + blen s) \<or>
     (head_offset s \<le> head_ln m \<and> head_ln m < head_offset s + hlen s)"
  by (simp add: traversing_diff_def blen_def hlen_def)

lemma lines_in_nonneg: "0 \<le> base_lines_in ls" "0 \<le> head_lines_in ls"
  by (simp_all add: base_lines_in_def head_lines_in_def)

lemma lines_in_zero_zero: "base_lines_in ls = 0 \<Longrightarrow> head_lines_in ls = 0 \<Longrightarrow> ls = []"
proof (cases ls)
  case Nil
  then show ?thesis by simp
next
  case (Cons l ls')
  assume "base_lines_in ls = 0" "head_lines_in ls = 0"
  with Cons have "is_added (Some l)" "is_removed (Some l)"
    by (auto simp: base_lines_in_def head_lines_in_def split: if_splits)
  then show ?thesis by (auto simp: is_added_iff is_removed_iff)
qed

lemma lines_in_Cons:
  "base_lines_in (l # ls) = base_lines_in ls + (if is_added (Some l) then 0 else 1)"
  "head_lines_in (l # ls) = head_lines_in ls + (if is_removed (Some l) then 0 else 1)"
  by (simp_all add: base_lines_in_def head_lines_in_def)

lemma seg_ok_in_diff:
  assumes "seg_ok b h s"
  shows "((base_offset s \<le> b \<and> b < base_offset s + blen s) \<or>
          (head_offset s \<le> h \<and> h < head_offset s + hlen s)) \<longleftrightarrow> gap b h s = 0"
proof -
  let ?ra = "base_lines_in (seg_lines s)" and ?rh = "head_lines_in (seg_lines s)"
  from assms have ne: "seg_lines s \<noteq> []" by (simp add: seg_ok_def)
  with lines_in_zero_zero [of "seg_lines s"] have pos: "?ra \<noteq> 0 \<or> ?rh \<noteq> 0" by blast
  have nn: "0 \<le> ?ra" "0 \<le> ?rh" by (rule lines_in_nonneg)+
  from assms pos nn show ?thesis
    unfolding seg_ok_def gap_def by (auto split: if_splits)
qed


lemma not_added_and_removed: "\<not> (is_added v \<and> is_removed v)"
  by (auto simp: is_added_iff is_removed_iff)

lemma advance_pointers:
  "base_ln (advance (Some l) m) = base_ln m + db l"
  "head_ln (advance (Some l) m) = head_ln m + dh l"
  "segments (advance v m) = segments m" "src (advance v m) = src m"
  "head_file_eof (advance v m) = head_file_eof m" "base_file_eof (advance v m) = base_file_eof m"
  using not_added_and_removed [of "Some l"]
  by (auto simp: advance_def db_def dh_def)

lemma advance_None:
  "base_ln (advance None m) = base_ln m + 1" "head_ln (advance None m) = head_ln m + 1"
  by (simp_all add: advance_def is_added_def is_removed_def)

lemma retire_segment_fields:
  "src (retire_segment m) = src m" "head_file_eof (retire_segment m) = head_file_eof m"
  "base_file_eof (retire_segment m) = base_file_eof m"
  "segments (retire_segment m) =
     (case segments m of [] \<Rightarrow> [] | s # rest \<Rightarrow> if seg_lines s = [] then rest else s # rest)"
  by (simp_all add: retire_segment_def split: list.splits)

lemma seg_ok_pop:
  assumes ok: "seg_ok b h s" and g: "gap b h s = 0" and ls: "seg_lines s = l # ls"
    and ne: "ls \<noteq> []"
  shows "seg_ok (b + db l) (h + dh l) (s\<lparr>seg_lines := ls\<rparr>)"
    and "gap (b + db l) (h + dh l) (s\<lparr>seg_lines := ls\<rparr>) = 0"
proof -
  have ra: "base_lines_in (seg_lines s) = base_lines_in ls + db l"
    and rh: "head_lines_in (seg_lines s) = head_lines_in ls + dh l"
    by (simp_all add: ls lines_in_Cons db_def dh_def)
  have sl: "seg_lines (s\<lparr>seg_lines := ls\<rparr>) = ls"
    "base_offset (s\<lparr>seg_lines := ls\<rparr>) = base_offset s"
    "head_offset (s\<lparr>seg_lines := ls\<rparr>) = head_offset s"
    by simp_all
  have hdr: "blen (s\<lparr>seg_lines := ls\<rparr>) = blen s" "hlen (s\<lparr>seg_lines := ls\<rparr>) = hlen s"
    by (simp_all add: blen_def hlen_def)
  have nn: "0 \<le> db l" "0 \<le> dh l" by (simp_all add: db_def dh_def)
  show g': "gap (b + db l) (h + dh l) (s\<lparr>seg_lines := ls\<rparr>) = 0"
    using g unfolding gap_def hdr sl ra rh by (auto split: if_splits)
  from ok g have "base_lines_in ls + db l \<le> blen s" "head_lines_in ls + dh l \<le> hlen s"
    "blen s \<noteq> 0 \<and> hlen s \<noteq> 0 \<longrightarrow> h = head_offset s + hlen s - (head_lines_in ls + dh l)"
    unfolding seg_ok_def ra rh by simp_all
  with nn ne show "seg_ok (b + db l) (h + dh l) (s\<lparr>seg_lines := ls\<rparr>)"
    unfolding seg_ok_def g' hdr sl by auto
qed

lemma seg_ok_skip:
  assumes ok: "seg_ok b h s" and g: "0 < gap b h s"
  shows "seg_ok (b + 1) (h + 1) s" and "gap (b + 1) (h + 1) s = gap b h s - 1"
proof -
  show g': "gap (b + 1) (h + 1) s = gap b h s - 1"
    by (simp add: gap_def)
  show "seg_ok (b + 1) (h + 1) s"
    unfolding seg_ok_def g' using ok g by (simp add: seg_ok_def)
qed

lemma segments_end_ge:
  "aligned b h segs \<Longrightarrow> b \<le> fst (segments_end b h segs) \<and> h \<le> snd (segments_end b h segs)"
proof (induction segs arbitrary: b h)
  case Nil
  then show ?case by simp
next
  case (Cons s rest)
  let ?b = "b + gap b h s + base_lines_in (seg_lines s)"
  let ?h = "h + gap b h s + head_lines_in (seg_lines s)"
  from Cons.prems have "aligned ?b ?h rest" and "0 \<le> gap b h s"
    by (simp_all add: seg_ok_def)
  with Cons.IH [of ?b ?h] lines_in_nonneg [of "seg_lines s"] show ?case by simp
qed

lemma segments_end_gap:
  assumes "aligned b h (s # rest)"
  shows "b + gap b h s \<le> fst (segments_end b h (s # rest))"
    and "h + gap b h s \<le> snd (segments_end b h (s # rest))"
proof -
  let ?b = "b + gap b h s + base_lines_in (seg_lines s)"
  let ?h = "h + gap b h s + head_lines_in (seg_lines s)"
  from assms have "aligned ?b ?h rest" by simp
  from segments_end_ge [OF this] lines_in_nonneg [of "seg_lines s"]
  show "b + gap b h s \<le> fst (segments_end b h (s # rest))"
    and "h + gap b h s \<le> snd (segments_end b h (s # rest))"
    by simp_all
qed

lemma body_in_diff:
  assumes segs: "segments m = s # rest" and td: "traversing_diff m" and ls: "seg_lines s = l # ls"
  shows "\<exists>ev m'. apply_body observe [seen] m = Inr ([seen @ [ev]], m') \<and>
           base_ln m' = base_ln m + db l \<and> head_ln m' = head_ln m + dh l \<and>
           segments m' = (if ls = [] then rest else s\<lparr>seg_lines := ls\<rparr> # rest) \<and>
           src m' = src m \<and> head_file_eof m' = head_file_eof m \<and>
           base_file_eof m' = base_file_eof m"
proof -
  define m1 where "m1 = m\<lparr>segments := s\<lparr>seg_lines := ls\<rparr> # rest\<rparr>"
  have pop: "pop_line m = Inr (Some l, m1)"
    using segs td ls by (simp add: pop_line_def m1_def)
  define m' where "m' = retire_segment (advance (Some l) m1)"
  have body: "\<exists>ev. apply_body observe [seen] m = Inr ([seen @ [ev]], m')"
    by (simp add: apply_body_def pop observe_def m'_def)
  have "base_ln m' = base_ln m + db l" "head_ln m' = head_ln m + dh l"
    by (simp_all add: m'_def retire_segment_pointers advance_pointers m1_def)
  moreover have "segments m' = (if ls = [] then rest else s\<lparr>seg_lines := ls\<rparr> # rest)"
    by (simp add: m'_def retire_segment_fields advance_pointers m1_def)
  moreover have "src m' = src m" "head_file_eof m' = head_file_eof m"
    "base_file_eof m' = base_file_eof m"
    by (simp_all add: m'_def retire_segment_fields advance_pointers m1_def)
  ultimately show ?thesis using body by blast
qed

lemma body_outside:
  assumes ntd: "\<not> traversing_diff m"
    and rng: "src m \<noteq> [] \<Longrightarrow> 1 \<le> head_ln m \<and> head_ln m \<le> int (length (src m))"
    and plain: "list_all (\<lambda>l. \<not> is_added (Some l) \<and> \<not> is_removed (Some l)) (src m)"
    and ne: "\<And>s rest. segments m = s # rest \<Longrightarrow> seg_lines s \<noteq> []"
  shows "\<exists>ev m'. apply_body observe [seen] m = Inr ([seen @ [ev]], m') \<and>
           base_ln m' = base_ln m + 1 \<and> head_ln m' = head_ln m + 1 \<and>
           segments m' = segments m \<and>
           src m' = src m \<and> head_file_eof m' = head_file_eof m \<and>
           base_file_eof m' = base_file_eof m"
proof -
  have "\<exists>v. pop_line m = Inr (v, m) \<and> \<not> is_added v \<and> \<not> is_removed v"
  proof (cases "src m = []")
    case True
    with ntd show ?thesis by (simp add: pop_line_def is_added_def is_removed_def)
  next
    case False
    with rng have r: "1 \<le> head_ln m" "head_ln m \<le> int (length (src m))" by simp_all
    then have idx: "py_index (src m) (head_ln m - 1) = Some (src m ! nat (head_ln m - 1))"
      by (simp add: py_index_def)
    from r have "nat (head_ln m - 1) < length (src m)" by linarith
    then have "src m ! nat (head_ln m - 1) \<in> set (src m)" by (rule nth_mem)
    with plain have "\<not> is_added (Some (src m ! nat (head_ln m - 1)))"
      "\<not> is_removed (Some (src m ! nat (head_ln m - 1)))"
      by (simp_all add: list_all_iff)
    with ntd False idx show ?thesis by (simp add: pop_line_def)
  qed
  then obtain v where pop: "pop_line m = Inr (v, m)" and v: "\<not> is_added v" "\<not> is_removed v"
    by blast
  define m' where "m' = retire_segment (advance v m)"
  have adv: "advance v m = m\<lparr>head_ln := head_ln m + 1, base_ln := base_ln m + 1\<rparr>"
    using v by (simp add: advance_def)
  have body: "\<exists>ev. apply_body observe [seen] m = Inr ([seen @ [ev]], m')"
    by (simp add: apply_body_def pop observe_def m'_def)
  have "base_ln m' = base_ln m + 1" "head_ln m' = head_ln m + 1"
    by (simp_all add: m'_def retire_segment_pointers adv)
  moreover have "segments m' = segments m"
    using ne by (cases "segments m") (simp_all add: m'_def retire_segment_fields adv)
  moreover have "src m' = src m" "head_file_eof m' = head_file_eof m"
    "base_file_eof m' = base_file_eof m"
    by (simp_all add: m'_def retire_segment_fields adv)
  ultimately show ?thesis using body by blast
qed

lemma total_lines_Cons: "total_lines (s # rest) = length (seg_lines s) + total_lines rest"
  by (simp add: total_lines_def)

lemma db_dh_bounds: "0 \<le> db l" "0 \<le> dh l" "db l \<le> 1" "dh l \<le> 1"
  by (simp_all add: db_def dh_def)


lemma aligned_pop_last:
  assumes "aligned b h (s # rest)" "gap b h s = 0" "seg_lines s = [l]"
  shows "aligned (b + db l) (h + dh l) rest"
    and "segments_end (b + db l) (h + dh l) rest = segments_end b h (s # rest)"
proof -
  have "base_lines_in (seg_lines s) = db l" "head_lines_in (seg_lines s) = dh l"
    by (simp_all add: assms(3) lines_in_Cons db_def dh_def base_lines_in_def head_lines_in_def)
  with assms(1,2) show "aligned (b + db l) (h + dh l) rest"
    and "segments_end (b + db l) (h + dh l) rest = segments_end b h (s # rest)"
    by simp_all
qed

lemma aligned_pop_more:
  assumes "aligned b h (s # rest)" "gap b h s = 0" "seg_lines s = l # ls" "ls \<noteq> []"
  shows "aligned (b + db l) (h + dh l) (s\<lparr>seg_lines := ls\<rparr> # rest)"
    and "segments_end (b + db l) (h + dh l) (s\<lparr>seg_lines := ls\<rparr> # rest)
           = segments_end b h (s # rest)"
proof -
  from assms(1) have ok: "seg_ok b h s" by simp
  note pop = seg_ok_pop [OF ok assms(2,3,4)]
  have ra: "base_lines_in (seg_lines s) = base_lines_in ls + db l"
    and rh: "head_lines_in (seg_lines s) = head_lines_in ls + dh l"
    by (simp_all add: assms(3) lines_in_Cons db_def dh_def)
  have eq: "b + db l + base_lines_in ls = b + gap b h s + base_lines_in (seg_lines s)"
    "h + dh l + head_lines_in ls = h + gap b h s + head_lines_in (seg_lines s)"
    by (simp_all add: assms(2) ra rh)
  from assms(1) have rest: "aligned (b + gap b h s + base_lines_in (seg_lines s))
      (h + gap b h s + head_lines_in (seg_lines s)) rest" by simp
  show "aligned (b + db l) (h + dh l) (s\<lparr>seg_lines := ls\<rparr> # rest)"
    using pop rest by (simp add: eq)
  show "segments_end (b + db l) (h + dh l) (s\<lparr>seg_lines := ls\<rparr> # rest)
           = segments_end b h (s # rest)"
    using pop(2) by (simp add: eq)
qed

lemma aligned_skip:
  assumes "aligned b h (s # rest)" "0 < gap b h s"
  shows "aligned (b + 1) (h + 1) (s # rest)"
    and "segments_end (b + 1) (h + 1) (s # rest) = segments_end b h (s # rest)"
proof -
  from assms(1) have ok: "seg_ok b h s" by simp
  note skip = seg_ok_skip [OF ok assms(2)]
  have eq: "b + 1 + (gap b h s - 1) + base_lines_in (seg_lines s)
              = b + gap b h s + base_lines_in (seg_lines s)"
    "h + 1 + (gap b h s - 1) + head_lines_in (seg_lines s)
              = h + gap b h s + head_lines_in (seg_lines s)"
    by simp_all
  from assms(1) have rest: "aligned (b + gap b h s + base_lines_in (seg_lines s))
      (h + gap b h s + head_lines_in (seg_lines s)) rest" by simp
  show "aligned (b + 1) (h + 1) (s # rest)"
    using skip rest by (simp add: eq)
  show "segments_end (b + 1) (h + 1) (s # rest) = segments_end b h (s # rest)"
    using skip(2) by (simp add: eq)
qed

lemma traverse_step:
  assumes inv: "traverse_inv m" and nf: "\<not> traverse_finished m"
  shows "\<exists>ev m'. apply_body observe [seen] m = Inr ([seen @ [ev]], m') \<and>
           traverse_inv m' \<and> iterations_left m' < iterations_left m"
proof (cases "segments m")
  case Nil
  then have ntd: "\<not> traversing_diff m" by (simp add: traversing_diff_def)
  from inv have plain: "list_all (\<lambda>l. \<not> is_added (Some l) \<and> \<not> is_removed (Some l)) (src m)"
    and h1: "src m \<noteq> [] \<longrightarrow> 1 \<le> head_ln m"
    by (simp_all add: traverse_inv_def)
  from nf Nil have open_end: "if src m \<noteq> [] then head_ln m \<le> int (length (src m))
       else head_ln m < head_file_eof m \<or> base_ln m < base_file_eof m"
    by (auto simp: traverse_finished_def split: if_splits)
  have "\<exists>ev m'. apply_body observe [seen] m = Inr ([seen @ [ev]], m') \<and>
           base_ln m' = base_ln m + 1 \<and> head_ln m' = head_ln m + 1 \<and>
           segments m' = segments m \<and>
           src m' = src m \<and> head_file_eof m' = head_file_eof m \<and>
           base_file_eof m' = base_file_eof m"
    using ntd h1 open_end plain Nil by (intro body_outside) (auto split: if_splits)
  then obtain ev m' where body: "apply_body observe [seen] m = Inr ([seen @ [ev]], m')"
    and f: "base_ln m' = base_ln m + 1" "head_ln m' = head_ln m + 1" "segments m' = segments m"
      "src m' = src m" "head_file_eof m' = head_file_eof m" "base_file_eof m' = base_file_eof m"
    by blast
  have "traverse_inv m'"
    using Nil h1 plain by (auto simp: traverse_inv_def f)
  moreover have "iterations_left m' < iterations_left m"
    using open_end by (auto simp: iterations_left_def f Nil split: if_splits)
  ultimately show ?thesis using body by blast
next
  case (Cons s rest)
  let ?b = "base_ln m" and ?h = "head_ln m"
  from inv Cons have al: "aligned ?b ?h (s # rest)"
    and ends: "src m = [] \<longrightarrow> fst (segments_end ?b ?h (s # rest)) \<le> base_file_eof m \<and>
                              snd (segments_end ?b ?h (s # rest)) \<le> head_file_eof m"
      "src m \<noteq> [] \<longrightarrow> snd (segments_end ?b ?h (s # rest)) \<le> int (length (src m)) + 1"
    and h1: "src m \<noteq> [] \<longrightarrow> 1 \<le> ?h"
    and plain: "list_all (\<lambda>l. \<not> is_added (Some l) \<and> \<not> is_removed (Some l)) (src m)"
    by (simp_all add: traverse_inv_def)
  from al have ok: "seg_ok ?b ?h s" by simp
  then have ne: "seg_lines s \<noteq> []" and g0: "0 \<le> gap ?b ?h s" by (simp_all add: seg_ok_def)
  have td: "traversing_diff m \<longleftrightarrow> gap ?b ?h s = 0"
    using seg_ok_in_diff [OF ok] by (simp add: traversing_diff_Cons [OF Cons])
  show ?thesis
  proof (cases "gap ?b ?h s = 0")
    case True
    from ne obtain l ls where ls: "seg_lines s = l # ls" by (cases "seg_lines s") auto
    from td True have "traversing_diff m" by simp
    from body_in_diff [OF Cons this ls, of seen] obtain ev m' where
      body: "apply_body observe [seen] m = Inr ([seen @ [ev]], m')"
      and f: "base_ln m' = ?b + db l" "head_ln m' = ?h + dh l"
        "segments m' = (if ls = [] then rest else s\<lparr>seg_lines := ls\<rparr> # rest)"
        "src m' = src m" "head_file_eof m' = head_file_eof m" "base_file_eof m' = base_file_eof m"
      by blast
    have al': "aligned (base_ln m') (head_ln m') (segments m')"
      and end': "segments_end (base_ln m') (head_ln m') (segments m')
                  = segments_end ?b ?h (s # rest)"
    proof -
      show "aligned (base_ln m') (head_ln m') (segments m')"
      proof (cases "ls = []")
        case True
        with aligned_pop_last(1) [OF al \<open>gap ?b ?h s = 0\<close>, of l] ls show ?thesis
          by (simp add: f)
      next
        case False
        with aligned_pop_more(1) [OF al \<open>gap ?b ?h s = 0\<close> ls] show ?thesis
          by (simp add: f)
      qed
      show "segments_end (base_ln m') (head_ln m') (segments m')
                  = segments_end ?b ?h (s # rest)"
      proof (cases "ls = []")
        case True
        with aligned_pop_last(2) [OF al \<open>gap ?b ?h s = 0\<close>, of l] ls show ?thesis
          by (simp add: f)
      next
        case False
        with aligned_pop_more(2) [OF al \<open>gap ?b ?h s = 0\<close> ls] show ?thesis
          by (simp add: f)
      qed
    qed
    have "traverse_inv m'"
      unfolding traverse_inv_def end'
      using al' ends h1 plain db_dh_bounds [of l] by (auto simp: f)
    moreover have "total_lines (segments m') + 1 = total_lines (segments m)"
      by (simp add: f Cons total_lines_Cons ls total_lines_def)
    then have "iterations_left m' < iterations_left m"
      using db_dh_bounds [of l] by (auto simp: iterations_left_def f)
    ultimately show ?thesis using body by blast
  next
    case False
    with g0 have gpos: "0 < gap ?b ?h s" by simp
    from td False have ntd: "\<not> traversing_diff m" by simp
    from segments_end_gap [OF al] gpos
    have lt: "?b < fst (segments_end ?b ?h (s # rest))" "?h < snd (segments_end ?b ?h (s # rest))"
      by linarith+
    have rng: "src m \<noteq> [] \<Longrightarrow> 1 \<le> ?h \<and> ?h \<le> int (length (src m))"
      using h1 ends(2) lt(2) by auto
    have "\<exists>ev m'. apply_body observe [seen] m = Inr ([seen @ [ev]], m') \<and>
           base_ln m' = base_ln m + 1 \<and> head_ln m' = head_ln m + 1 \<and>
           segments m' = segments m \<and>
           src m' = src m \<and> head_file_eof m' = head_file_eof m \<and>
           base_file_eof m' = base_file_eof m"
      using ntd rng plain ne Cons by (intro body_outside) auto
    then obtain ev m' where body: "apply_body observe [seen] m = Inr ([seen @ [ev]], m')"
      and f: "base_ln m' = ?b + 1" "head_ln m' = ?h + 1" "segments m' = segments m"
        "src m' = src m" "head_file_eof m' = head_file_eof m" "base_file_eof m' = base_file_eof m"
      by blast
    have al': "aligned (base_ln m') (head_ln m') (segments m')"
      and end': "segments_end (base_ln m') (head_ln m') (segments m')
                  = segments_end ?b ?h (s # rest)"
      using aligned_skip [OF al gpos] by (simp_all add: f Cons)
    have "traverse_inv m'"
      unfolding traverse_inv_def end'
      using al' ends h1 plain by (auto simp: f)
    moreover have "iterations_left m' < iterations_left m"
      using rng ends(1) lt by (auto simp: iterations_left_def f)
    ultimately show ?thesis using body by blast
  qed
qed

lemma apply_loop_terminates:
  assumes "traverse_inv m" "iterations_left m \<le> fuel"
  shows "\<exists>evs m'. apply_loop fuel observe [seen] m = Some (Inr ([seen @ evs], m')) \<and>
           length evs \<le> iterations_left m \<and> traverse_finished m'"
  using assms
proof (induction fuel arbitrary: m seen)
  case 0
  have "traverse_finished m"
  proof (rule ccontr)
    assume "\<not> traverse_finished m"
    from traverse_step [OF "0.prems"(1) this, of seen] "0.prems"(2) show False by auto
  qed
  then have "apply_loop 0 observe [seen] m = Some (Inr ([seen @ []], m))"
    by (simp add: apply_loop_finished)
  with \<open>traverse_finished m\<close> show ?case by (intro exI [of _ "[]"] exI [of _ m]) simp
next
  case (Suc fuel)
  show ?case
  proof (cases "traverse_finished m")
    case True
    then have "apply_loop (Suc fuel) observe [seen] m = Some (Inr ([seen @ []], m))"
      by (simp add: apply_loop_finished)
    with True show ?thesis by (intro exI [of _ "[]"] exI [of _ m]) simp
  next
    case False
    from traverse_step [OF Suc.prems(1) False, of seen] obtain ev m1 where
      body: "apply_body observe [seen] m = Inr ([seen @ [ev]], m1)"
      and inv1: "traverse_inv m1" and less: "iterations_left m1 < iterations_left m"
      by blast
    from less Suc.prems(2) have "iterations_left m1 \<le> fuel" by simp
    from Suc.IH [OF inv1 this, of "seen @ [ev]"] obtain evs m' where
      run: "apply_loop fuel observe [seen @ [ev]] m1 = Some (Inr ([(seen @ [ev]) @ evs], m'))"
      and len: "length evs \<le> iterations_left m1" and fin: "traverse_finished m'"
      by blast
    from False body run
    have "apply_loop (Suc fuel) observe [seen] m = Some (Inr ([seen @ (ev # evs)], m'))"
      by (simp add: apply_loop_Suc)
    moreover from len less have "length (ev # evs) \<le> iterations_left m" by simp
    ultimately show ?thesis using fin by blast
  qed
qed

lemma lines_in_one_side:
  assumes "ls \<noteq> []"
  shows "head_lines_in ls = 0 \<Longrightarrow> 1 \<le> base_lines_in ls"
    and "base_lines_in ls = 0 \<Longrightarrow> 1 \<le> head_lines_in ls"
  using assms lines_in_zero_zero [of ls] lines_in_nonneg [of ls] by fastforce+

lemma segments_end_first:
  assumes "aligned b h (s # rest)"
  shows "b + gap b h s + base_lines_in (seg_lines s) \<le> fst (segments_end b h (s # rest))"
    and "h + gap b h s + head_lines_in (seg_lines s) \<le> snd (segments_end b h (s # rest))"
proof -
  from assms have "aligned (b + gap b h s + base_lines_in (seg_lines s))
      (h + gap b h s + head_lines_in (seg_lines s)) rest" by simp
  from segments_end_ge [OF this]
  show "b + gap b h s + base_lines_in (seg_lines s) \<le> fst (segments_end b h (s # rest))"
    and "h + gap b h s + head_lines_in (seg_lines s) \<le> snd (segments_end b h (s # rest))"
    by simp_all
qed

lemma first_segment_budget:
  assumes cons: "segment_consistent s"
    and al: "aligned (min 1 (base_offset s)) (min 1 (head_offset s)) (s # rest)"
    and be: "fst (segments_end (min 1 (base_offset s)) (min 1 (head_offset s)) (s # rest)) \<le> bs_eof"
    and he: "snd (segments_end (min 1 (base_offset s)) (min 1 (head_offset s)) (s # rest)) \<le> hd_eof"
    and zh: "head_offset s = 0 \<longrightarrow> hd_eof \<le> 1"
    and zb: "base_offset s = 0 \<longrightarrow> bs_eof \<le> 1"
  shows "max (hd_eof - min 1 (head_offset s)) (bs_eof - min 1 (base_offset s))
           \<le> max hd_eof bs_eof - 1"
proof -
  let ?b = "min 1 (base_offset s)" and ?h = "min 1 (head_offset s)"
  let ?ra = "base_lines_in (seg_lines s)" and ?rh = "head_lines_in (seg_lines s)"
  from cons have ne: "seg_lines s \<noteq> []" and bl: "?ra = blen s" and hl: "?rh = hlen s"
    and nn: "0 \<le> base_offset s" "0 \<le> head_offset s"
    and z: "base_offset s = 0 \<longrightarrow> blen s = 0" "head_offset s = 0 \<longrightarrow> hlen s = 0"
    by (simp_all add: segment_consistent_def)
  note ends = segments_end_first [OF al]
  consider (both) "1 \<le> base_offset s" "1 \<le> head_offset s"
    | (head0) "head_offset s = 0" | (base0) "base_offset s = 0"
    using nn by linarith
  then show ?thesis
  proof cases
    case both
    then have "min 1 (base_offset s) = 1" "min 1 (head_offset s) = 1" by simp_all
    then show ?thesis by (simp add: max_def)
  next
    case head0
    with z hl have rh0: "?rh = 0" by simp
    with lines_in_one_side(1) [OF ne] have ra: "1 \<le> ?ra" by simp
    with bl z(1) nn(1) have bo: "1 \<le> base_offset s" by (cases "base_offset s = 0") auto
    with ra bl have "gap ?b ?h s = base_offset s - 1" by (auto simp: gap_def min_def)
    with ends(1) bo ra have "2 \<le> fst (segments_end ?b ?h (s # rest))" by (simp add: min_def)
    with be have "2 \<le> bs_eof" by simp
    moreover from head0 zh have "hd_eof \<le> 1" by simp
    moreover from head0 bo have "min 1 (base_offset s) = 1" "min 1 (head_offset s) = 0"
      by simp_all
    ultimately show ?thesis by (simp add: max_def)
  next
    case base0
    with z bl have ra0: "?ra = 0" by simp
    with lines_in_one_side(2) [OF ne] have rh: "1 \<le> ?rh" by simp
    with hl z(2) nn(2) have ho: "1 \<le> head_offset s" by (cases "head_offset s = 0") auto
    from ra0 bl rh hl have "gap ?b ?h s = head_offset s - ?h" by (auto simp: gap_def)
    with ho have "gap ?b ?h s = head_offset s - 1" by (simp add: min_def)
    with ends(2) ho rh have "2 \<le> snd (segments_end ?b ?h (s # rest))" by (simp add: min_def)
    with he have "2 \<le> hd_eof" by simp
    moreover from base0 zb have "bs_eof \<le> 1" by simp
    moreover from base0 ho have "min 1 (base_offset s) = 0" "min 1 (head_offset s) = 1"
      by simp_all
    ultimately show ?thesis by (simp add: max_def)
  qed
qed

lemma well_formed_start:
  assumes wf: "well_formed_input hd_eof bs_eof segs source"
  shows "\<exists>m0. traverse_manager_init hd_eof bs_eof segs source = Inr m0 \<and> traverse_inv m0 \<and>
           iterations_left m0 \<le> iteration_budget hd_eof bs_eof segs source"
proof -
  define b0 where "b0 = (case segs of [] \<Rightarrow> 1 | s # _ \<Rightarrow> min 1 (base_offset s))"
  define h0 where "h0 = (case segs of [] \<Rightarrow> 1 | s # _ \<Rightarrow> min 1 (head_offset s))"
  define m0 where "m0 = \<lparr>head_file_eof = hd_eof, base_file_eof = bs_eof, segments = segs,
    src = source, base_ln = b0, head_ln = h0\<rparr>"
  from wf have cons: "list_all segment_consistent segs" and al: "aligned b0 h0 segs"
    and ends: "source = [] \<longrightarrow> fst (segments_end b0 h0 segs) \<le> bs_eof \<and>
                                 snd (segments_end b0 h0 segs) \<le> hd_eof"
      "source \<noteq> [] \<longrightarrow> snd (segments_end b0 h0 segs) \<le> int (length source) + 1 \<and>
                          hd_eof - 1 \<le> int (length source)"
    and zero: "case segs of [] \<Rightarrow> True
                | s # _ \<Rightarrow> (head_offset s = 0 \<longrightarrow> source = [] \<and> hd_eof \<le> 1) \<and>
                           (base_offset s = 0 \<longrightarrow> bs_eof \<le> 1)"
    and plain: "list_all (\<lambda>l. \<not> is_added (Some l) \<and> \<not> is_removed (Some l)) source"
    unfolding well_formed_input_def Let_def b0_def h0_def by simp_all
  have init: "traverse_manager_init hd_eof bs_eof segs source = Inr m0"
    using ends(2) by (auto simp: traverse_manager_init_def m0_def b0_def h0_def)
  have h1: "source \<noteq> [] \<longrightarrow> h0 = 1"
  proof (cases segs)
    case Nil
    then show ?thesis by (simp add: h0_def)
  next
    case (Cons s rest)
    with cons have "0 \<le> head_offset s" by (simp add: segment_consistent_def)
    moreover from zero Cons have "source \<noteq> [] \<longrightarrow> head_offset s \<noteq> 0" by auto
    ultimately show ?thesis using Cons by (auto simp: h0_def min_def)
  qed
  have inv: "traverse_inv m0"
    using al ends h1 plain by (auto simp: traverse_inv_def m0_def)
  have "iterations_left m0 \<le> iteration_budget hd_eof bs_eof segs source"
  proof (cases "source = []")
    case False
    with h1 show ?thesis by (simp add: iterations_left_def iteration_budget_def m0_def)
  next
    case True
    have "max (hd_eof - h0) (bs_eof - b0) \<le> max hd_eof bs_eof - 1"
    proof (cases segs)
      case Nil
      then show ?thesis by (simp add: b0_def h0_def max_def)
    next
      case (Cons s rest)
      then have b0: "b0 = min 1 (base_offset s)" and h0: "h0 = min 1 (head_offset s)"
        by (simp_all add: b0_def h0_def)
      from cons Cons have c: "segment_consistent s" by simp
      from al Cons have a: "aligned (min 1 (base_offset s)) (min 1 (head_offset s)) (s # rest)"
        by (simp add: b0 h0)
      from ends(1) True Cons
      have e: "fst (segments_end (min 1 (base_offset s)) (min 1 (head_offset s)) (s # rest)) \<le> bs_eof"
        "snd (segments_end (min 1 (base_offset s)) (min 1 (head_offset s)) (s # rest)) \<le> hd_eof"
        by (simp_all add: b0 h0)
      from zero Cons have z: "head_offset s = 0 \<longrightarrow> hd_eof \<le> 1" "base_offset s = 0 \<longrightarrow> bs_eof \<le> 1"
        by simp_all
      from first_segment_budget [OF c a e z] show ?thesis by (simp add: b0 h0)
    qed
    then have "nat (max (hd_eof - h0) (bs_eof - b0)) \<le> nat (max hd_eof bs_eof - 1)"
      by (rule nat_mono)
    with True show ?thesis
      by (simp add: iterations_left_def iteration_budget_def m0_def del: max_less_iff_conj)
  qed
  with init inv show ?thesis by blast
qed

text \<open>
  Claim C2, amended.  For well-formed inputs (consistent segments, ascending and not
  overlapping, ending inside the files or the source, and a source none of whose lines
  starts with \<open>+\<close> or \<open>-\<close>), the constructor succeeds and \<open>apply\<close> finishes, without
  raising, within the number of raw lines of the segments plus the length of the source
  or, when no source is given, plus \<open>max(head_file_eof, base_file_eof) - 1\<close>; the
  visitor is called at most that many times.
\<close>

theorem apply_terminates_within_budget:
  assumes "well_formed_input hd_eof bs_eof segs source"
    and "iteration_budget hd_eof bs_eof segs source \<le> fuel"
  shows "\<exists>m0 evs m'. traverse_manager_init hd_eof bs_eof segs source = Inr m0 \<and>
           apply_loop fuel observe [[]] m0 = Some (Inr ([evs], m')) \<and>
           length evs \<le> iteration_budget hd_eof bs_eof segs source \<and>
           traverse_finished m'"
proof -
  from well_formed_start [OF assms(1)] obtain m0 where
    init: "traverse_manager_init hd_eof bs_eof segs source = Inr m0"
    and inv: "traverse_inv m0"
    and le: "iterations_left m0 \<le> iteration_budget hd_eof bs_eof segs source"
    by blast
  from le assms(2) have "iterations_left m0 \<le> fuel" by simp
  from apply_loop_terminates [OF inv this, of "[]"] obtain evs m' where
    "apply_loop fuel observe [[]] m0 = Some (Inr ([evs], m'))"
    "length evs \<le> iterations_left m0" "traverse_finished m'"
    by auto
  with init le show ?thesis by (intro exI [of _ m0] exI [of _ evs] exI [of _ m']) simp
qed


text \<open>The theorem at the example file with its source.\<close>

theorem apply_terminates_within_budget_witness:
  "\<exists>m0 evs m'. traverse_manager_init 5 5 example_segments example_source = Inr m0 \<and>
     apply_loop 7 observe [[]] m0 = Some (Inr ([evs], m')) \<and> length evs \<le> 7"
proof -
  have wf: "well_formed_input 5 5 example_segments example_source"
    by code_simp
  have budget: "iteration_budget 5 5 example_segments example_source \<le> 7"
    by code_simp
  have "iteration_budget 5 5 example_segments example_source = 7"
    by code_simp
  with apply_terminates_within_budget [OF wf budget] show ?thesis by auto
qed

text \<open>
  Claim C2 as stated fails: for a file of two lines with no diff and no source, the
  stated bound (raw lines of the segments plus length of the source) is 0, and the pass
  is still running after 0 iterations; it finishes after 2.
\<close>

theorem bound_without_source_exceeded:
  "well_formed_input 3 3 [] [] \<and>
   traverse_manager_init 3 3 [] [] =
     Inr \<lparr>head_file_eof = 3, base_file_eof = 3, segments = [], src = [],
          base_ln = 1, head_ln = 1\<rparr> \<and>
   total_lines [] + length ([] :: string list) = 0 \<and>
   apply_loop 0 observe [[]]
     \<lparr>head_file_eof = 3, base_file_eof = 3, segments = [], src = [], base_ln = 1, head_ln = 1\<rparr>
     = None \<and>
   apply_loop 2 observe [[]]
     \<lparr>head_file_eof = 3, base_file_eof = 3, segments = [], src = [], base_ln = 1, head_ln = 1\<rparr>
     = Some (Inr ([[plain_event 1, plain_event 2]],
          \<lparr>head_file_eof = 3, base_file_eof = 3, segments = [], src = [],
           base_ln = 3, head_ln = 3\<rparr>))"
  by code_simp

text \<open>
  A source line that starts with \<open>-\<close> and is read outside any segment is taken for a
  removed line: only \<open>base_ln\<close> advances, the same line is read again, and the pass
  never finishes.  The amended claim leaves such sources out.
\<close>

lemma minus_source_line_body:
  "apply_body observe [seen]
     \<lparr>head_file_eof = e1, base_file_eof = e2, segments = [], src = [''-x''],
      base_ln = b, head_ln = 1\<rparr>
   = Inr ([seen @ [\<lparr>ev_base_ln = Some b, ev_head_ln = None, ev_value = Some ''-x'',
                    ev_is_diff = False\<rparr>]],
          \<lparr>head_file_eof = e1, base_file_eof = e2, segments = [], src = [''-x''],
           base_ln = b + 1, head_ln = 1\<rparr>)"
  by (simp add: apply_body_def pop_line_def traversing_diff_def py_index_def observe_def
      is_added_def is_removed_def advance_def retire_segment_def)

lemma source_line_with_minus_never_finishes:
  "apply_loop fuel observe [seen]
     \<lparr>head_file_eof = e1, base_file_eof = e2, segments = [], src = [''-x''],
      base_ln = b, head_ln = 1\<rparr> = None"
proof (induction fuel arbitrary: seen b)
  case 0
  show ?case by (simp add: apply_loop.simps [of 0] traverse_finished_def)
next
  case (Suc fuel)
  have "\<not> traverse_finished \<lparr>head_file_eof = e1, base_file_eof = e2, segments = [],
      src = [''-x''], base_ln = b, head_ln = 1\<rparr>"
    by (simp add: traverse_finished_def)
  then show ?case
    by (simp add: apply_loop_Suc minus_source_line_body Suc.IH)
qed

end
